theory Spec2Isabelle
  imports Complex_Main "HOL-Library.Multiset"
begin

chapter \<open>The model\<close>

section \<open>Data model\<close>

text \<open>
  A colour is the TypeScript tuple \<^verbatim>\<open>type RGBA = [number, number, number, number]\<close>.
  Every channel the program handles is an integer, so a channel is an \<open>int\<close>.
\<close>

type_synonym RGBA = "int \<times> int \<times> int \<times> int"

text \<open>
  \<^verbatim>\<open>ImageData\<close>: \<open>data\<close> is the flat \<^verbatim>\<open>Uint8ClampedArray\<close> of
  \<open>width * height * 4\<close> channel bytes, row-major, four per pixel.
\<close>

record ImageData =
  width :: nat
  height :: nat
  data :: "int list"

definition wellFormed :: "ImageData \<Rightarrow> bool" where
  "wellFormed img =
     (length (data img) = width img * height img * 4 \<and> list_all (\<lambda>v. 0 \<le> v \<and> v \<le> 255) (data img))"

text \<open>A store into a \<^verbatim>\<open>Uint8ClampedArray\<close> clamps an integer to \<open>0..255\<close>.\<close>

definition clamp8 :: "int \<Rightarrow> int" where
  "clamp8 v = max 0 (min 255 v)"

text \<open>The four bytes of the pixel that starts at byte index \<open>i\<close>.\<close>

definition getPixel :: "int list \<Rightarrow> nat \<Rightarrow> RGBA" where
  "getPixel d i = (d ! i, d ! (i + 1), d ! (i + 2), d ! (i + 3))"

definition setPixel :: "int list \<Rightarrow> nat \<Rightarrow> RGBA \<Rightarrow> int list" where
  "setPixel d i c =
     (case c of (r, g, b, a) \<Rightarrow> d[i := r, i + 1 := g, i + 2 := b, i + 3 := a])"

text \<open>\<^verbatim>\<open>const getPixelIndex = (x, y) => (y * width + x) * 4\<close>\<close>

definition getPixelIndex :: "nat \<Rightarrow> int \<Rightarrow> int \<Rightarrow> nat" where
  "getPixelIndex w x y = nat ((y * int w + x) * 4)"

text \<open>\<^verbatim>\<open>isPixelInBounds(x, y)\<close> of the renderer, whose image size is the canvas size.\<close>

definition isPixelInBounds :: "nat \<Rightarrow> nat \<Rightarrow> int \<Rightarrow> int \<Rightarrow> bool" where
  "isPixelInBounds imageWidth imageHeight x y =
     (x \<ge> 0 \<and> x < int imageWidth \<and> y \<ge> 0 \<and> y < int imageHeight)"

section \<open>Hex colours\<close>

text \<open>
  \<^verbatim>\<open>/^#?([a-f\d]{2})([a-f\d]{2})([a-f\d]{2})$/i\<close>: an optional \<open>#\<close>, then exactly six
  hexadecimal digits of either case. \<open>hexDigit\<close> is \<^verbatim>\<open>parseInt(_, 16)\<close> on one digit.
\<close>

definition hexDigit :: "char \<Rightarrow> int option" where
  "hexDigit c =
     (let n = (of_char c :: nat) in
      if 48 \<le> n \<and> n \<le> 57 then Some (int n - 48)
      else if 97 \<le> n \<and> n \<le> 102 then Some (int n - 87)
      else if 65 \<le> n \<and> n \<le> 70 then Some (int n - 55)
      else None)"

definition hexToRgba :: "string \<Rightarrow> int \<Rightarrow> RGBA" where
  "hexToRgba hex alpha =
     (let s = (case hex of [] \<Rightarrow> [] | c # cs \<Rightarrow> if c = CHR ''#'' then cs else hex) in
      case map hexDigit s of
        [Some r1, Some r0, Some g1, Some g0, Some b1, Some b0] \<Rightarrow>
          (16 * r1 + r0, 16 * g1 + g0, 16 * b1 + b0, alpha)
      | _ \<Rightarrow> (0, 0, 0, alpha))"

section \<open>Brush stamping\<close>

text \<open>
  The two nested loops of \<^verbatim>\<open>drawBrush\<close>,
  \<^verbatim>\<open>for (dy = -half; dy < brushSize - half; dy++) for (dx = -half; dx < brushSize - half; dx++)\<close>
  with \<^verbatim>\<open>half = Math.floor(brushSize / 2)\<close>, as the sequence of offsets they visit.
\<close>

definition brushOffsets :: "int \<Rightarrow> (int \<times> int) list" where
  "brushOffsets brushSize =
     (let half = brushSize div 2 in
      concat (map (\<lambda>dy. map (\<lambda>dx. (dx, dy)) [- half .. brushSize - half - 1])
                  [- half .. brushSize - half - 1]))"

text \<open>
  The pixels are written through the browser's \<^verbatim>\<open>CanvasRenderingContext2D\<close>, which is not
  part of the program. The context is a parameter: \<open>fillPixel paint old\<close> is the value a pixel
  holding \<open>old\<close> has after \<^verbatim>\<open>fillRect(px, py, 1, 1)\<close> with the fill style \<open>paint\<close>, and
  \<open>clearPixel old\<close> its value after \<^verbatim>\<open>clearRect(px, py, 1, 1)\<close>.
\<close>

record Context2D =
  fillPixel :: "RGBA \<Rightarrow> RGBA \<Rightarrow> RGBA"
  clearPixel :: "RGBA \<Rightarrow> RGBA"

text \<open>
  \<^verbatim>\<open>Math.round\<close> rounds half up. Its arguments outside the dithering (a product by 255, a
  quotient of integers) are taken as exact rationals.
\<close>

definition mathRound :: "rat \<Rightarrow> int" where
  "mathRound q = \<lfloor>q + 1 / 2\<rfloor>"

text \<open>
  The fill style \<^verbatim>\<open>rgba(r, g, b, alphaValue / 255)\<close> of a stamp, with the alpha kept as the
  byte \<^verbatim>\<open>alphaValue = Math.round(opacity * 255)\<close>.
\<close>

definition brushPaint :: "string \<Rightarrow> rat \<Rightarrow> RGBA" where
  "brushPaint color opacity =
     (let alphaValue = mathRound (opacity * 255) in
      case hexToRgba color alphaValue of (r, g, b, _) \<Rightarrow> (r, g, b, alphaValue))"

text \<open>The body of the inner loop for one offset.\<close>

definition stampPixel :: "Context2D \<Rightarrow> RGBA \<Rightarrow> bool \<Rightarrow> ImageData \<Rightarrow> int \<times> int \<Rightarrow> ImageData" where
  "stampPixel ctx paint isEraser canvas p =
     (case p of (px, py) \<Rightarrow>
        if \<not> isPixelInBounds (width canvas) (height canvas) px py then canvas
        else
          let i = getPixelIndex (width canvas) px py;
              old = getPixel (data canvas) i
          in canvas\<lparr>data := setPixel (data canvas) i
                        (if isEraser then clearPixel ctx old else fillPixel ctx paint old)\<rparr>)"

definition drawBrush ::
  "Context2D \<Rightarrow> int \<Rightarrow> string \<Rightarrow> rat \<Rightarrow> int \<Rightarrow> int \<Rightarrow> bool \<Rightarrow> ImageData \<Rightarrow> ImageData" where
  "drawBrush ctx brushSize color opacity centerX centerY isEraser canvas =
     foldl (stampPixel ctx (brushPaint color opacity) isEraser) canvas
       (map (\<lambda>(dx, dy). (centerX + dx, centerY + dy)) (brushOffsets brushSize))"

text \<open>
  The offset range as the specification words it, \<open>[-half, size-1-half)\<close> with
  \<open>half = floor(size/2)\<close>, for comparison with the loops above.
\<close>

definition specOffsetRange :: "int \<Rightarrow> int \<Rightarrow> bool" where
  "specOffsetRange brushSize d = (- (brushSize div 2) \<le> d \<and> d < brushSize - 1 - brushSize div 2)"

text \<open>The range the loops cover: \<open>-half \<le> d < brushSize - half\<close>.\<close>

definition loopOffsetRange :: "int \<Rightarrow> int \<Rightarrow> bool" where
  "loopOffsetRange brushSize d = (- (brushSize div 2) \<le> d \<and> d < brushSize - brushSize div 2)"

text \<open>
  Source-over compositing on straight (not premultiplied) 8-bit channels, rounded to the
  nearest byte: what \<^verbatim>\<open>fillRect\<close> does under the canvas default
  \<^verbatim>\<open>globalCompositeOperation = "source-over"\<close>, which the program never changes.
  \<^verbatim>\<open>clearRect\<close> makes the pixel transparent black. This is the browser's behaviour, not
  code of the program; it only instantiates the context parameter.
\<close>

definition sourceOver :: "RGBA \<Rightarrow> RGBA \<Rightarrow> RGBA" where
  "sourceOver paint old =
     (case paint of (sr, sg, sb, sa) \<Rightarrow> case old of (dr, dg, db, da) \<Rightarrow>
        let asrc = rat_of_int sa / 255;
            adst = rat_of_int da / 255;
            aout = asrc + adst * (1 - asrc);
            mix = (\<lambda>s d. if aout = 0 then 0
                          else mathRound ((rat_of_int s * asrc + rat_of_int d * adst * (1 - asrc)) / aout))
        in (mix sr dr, mix sg dg, mix sb db, mathRound (aout * 255)))"

definition canvas2D :: Context2D where
  "canvas2D = \<lparr>fillPixel = sourceOver, clearPixel = (\<lambda>_. (0, 0, 0, 0))\<rparr>"

text \<open>A context whose fill replaces the pixel by the paint, for comparison.\<close>

definition overwriteContext :: Context2D where
  "overwriteContext = \<lparr>fillPixel = (\<lambda>paint old. paint), clearPixel = (\<lambda>_. (0, 0, 0, 0))\<rparr>"

section \<open>Nearest colour and remapping\<close>

text \<open>\<^verbatim>\<open>colorDistance\<close>: squared distance over R, G and B; alpha is left out.\<close>

definition colorDistance :: "RGBA \<Rightarrow> RGBA \<Rightarrow> int" where
  "colorDistance c1 c2 =
     (case c1 of (r1, g1, b1, _) \<Rightarrow> case c2 of (r2, g2, b2, _) \<Rightarrow>
        let dr = r1 - r2; dg = g1 - g2; db = b1 - b2
        in dr * dr + dg * dg + db * db)"

text \<open>
  A running minimum that starts at \<^verbatim>\<open>Infinity\<close> is an \<open>int option\<close> with \<open>None\<close> for
  \<^verbatim>\<open>Infinity\<close>; \<open>belowMin distance minDist\<close> is the test \<^verbatim>\<open>dist < minDist\<close>.
\<close>

definition belowMin :: "int \<Rightarrow> int option \<Rightarrow> bool" where
  "belowMin distance minDist = (case minDist of None \<Rightarrow> True | Some m \<Rightarrow> distance < m)"

text \<open>
  \<^verbatim>\<open>findNearestColor\<close>: \<open>nearest\<close> starts as \<^verbatim>\<open>palette[0]\<close>, which is
  \<^verbatim>\<open>undefined\<close> (here \<open>None\<close>) for an empty palette.
\<close>

definition findNearestColor :: "RGBA \<Rightarrow> RGBA list \<Rightarrow> RGBA option" where
  "findNearestColor color palette =
     snd (foldl (\<lambda>(minDist, nearest) paletteColor.
                   let distance = colorDistance color paletteColor
                   in if belowMin distance minDist then (Some distance, Some paletteColor)
                      else (minDist, nearest))
                (None, case palette of [] \<Rightarrow> None | p # _ \<Rightarrow> Some p) palette)"

text \<open>Reading an element of \<^verbatim>\<open>undefined\<close> throws a \<^verbatim>\<open>TypeError\<close>.\<close>

datatype jsError = TypeError

text \<open>The body of the loop of \<^verbatim>\<open>remapColors\<close> for the pixel whose bytes are \<open>c\<close>.\<close>

definition remapPixel :: "RGBA list \<Rightarrow> RGBA \<Rightarrow> jsError + RGBA" where
  "remapPixel palette c =
     (case c of (r, g, b, a) \<Rightarrow>
        if a = 0 then Inr (0, 0, 0, 0)
        else case findNearestColor (r, g, b, a) palette of
               None \<Rightarrow> Inl TypeError
             | Some (nr, ng, nb, na) \<Rightarrow> Inr (clamp8 nr, clamp8 ng, clamp8 nb, clamp8 a))"

text \<open>
  The loop \<^verbatim>\<open>for (let i = 0; i < width * height * 4; i += 4)\<close> over the byte indices
  \<open>is\<close>, reading \<open>d\<close> and writing \<open>res\<close>.
\<close>

fun remapLoop :: "RGBA list \<Rightarrow> int list \<Rightarrow> nat list \<Rightarrow> int list \<Rightarrow> jsError + int list" where
  "remapLoop palette d [] res = Inr res"
| "remapLoop palette d (i # is) res =
     (case remapPixel palette (getPixel d i) of
        Inl e \<Rightarrow> Inl e
      | Inr c \<Rightarrow> remapLoop palette d is (setPixel res i c))"

text \<open>The byte indices \<open>0, 4, 8, ...\<close> below \<open>width * height * 4\<close>.\<close>

definition pixelStarts :: "ImageData \<Rightarrow> nat list" where
  "pixelStarts img = map (\<lambda>k. 4 * k) [0 ..< width img * height img]"

text \<open>\<^verbatim>\<open>new ImageData(width, height)\<close> is filled with zeros.\<close>

definition newImageData :: "nat \<Rightarrow> nat \<Rightarrow> ImageData" where
  "newImageData w h = \<lparr>width = w, height = h, data = replicate (w * h * 4) 0\<rparr>"

definition remapColors :: "ImageData \<Rightarrow> RGBA list \<Rightarrow> jsError + ImageData" where
  "remapColors imageData palette =
     (let result = newImageData (width imageData) (height imageData) in
      case remapLoop palette (data imageData) (pixelStarts imageData) (data result) of
        Inl e \<Rightarrow> Inl e
      | Inr res \<Rightarrow> Inr (result\<lparr>data := res\<rparr>))"

text \<open>A colour whose four channels are bytes.\<close>

definition validColor :: "RGBA \<Rightarrow> bool" where
  "validColor c = (case c of (r, g, b, a) \<Rightarrow>
     0 \<le> r \<and> r \<le> 255 \<and> 0 \<le> g \<and> g \<le> 255 \<and> 0 \<le> b \<and> b \<le> 255 \<and> 0 \<le> a \<and> a \<le> 255)"

text \<open>The loop body of \<^verbatim>\<open>findNearestColor\<close>, named for the proofs.\<close>

definition nearestStep :: "RGBA \<Rightarrow> int option \<times> RGBA option \<Rightarrow> RGBA \<Rightarrow> int option \<times> RGBA option" where
  "nearestStep color = (\<lambda>(minDist, nearest) paletteColor.
                   let distance = colorDistance color paletteColor
                   in if belowMin distance minDist then (Some distance, Some paletteColor)
                      else (minDist, nearest))"

section \<open>Flood fill\<close>

text \<open>
  The \<^verbatim>\<open>while (stack.length > 0)\<close> loop of \<^verbatim>\<open>floodFill\<close>. The stack is a list whose
  head is the top (\<^verbatim>\<open>pop\<close> takes the head; \<^verbatim>\<open>push(a, b, c, d)\<close> leaves \<open>d\<close> on top).
  The \<^verbatim>\<open>Set<string>\<close> of keys \<^verbatim>\<open>`${x},${y}`\<close> is a set of coordinate pairs.
\<close>

function floodLoop ::
  "nat \<Rightarrow> nat \<Rightarrow> RGBA \<Rightarrow> RGBA \<Rightarrow> (int \<times> int) list \<Rightarrow> (int \<times> int) set \<Rightarrow> int list \<Rightarrow> int list" where
  "floodLoop w h target fill [] visited d = d"
| "floodLoop w h target fill ((x, y) # stack) visited d =
     (if (x, y) \<in> visited then floodLoop w h target fill stack visited d
      else if x < 0 \<or> x \<ge> int w \<or> y < 0 \<or> y \<ge> int h then floodLoop w h target fill stack visited d
      else if getPixel d (getPixelIndex w x y) \<noteq> target then floodLoop w h target fill stack visited d
      else floodLoop w h target fill
             ((x, y - 1) # (x, y + 1) # (x - 1, y) # (x + 1, y) # stack)
             (insert (x, y) visited)
             (setPixel d (getPixelIndex w x y) fill))"
  by pat_completeness auto

text \<open>The coordinates inside a \<open>w\<close> by \<open>h\<close> buffer.\<close>

definition inBounds :: "nat \<Rightarrow> nat \<Rightarrow> (int \<times> int) set" where
  "inBounds w h = {0 ..< int w} \<times> {0 ..< int h}"

termination floodLoop
proof (relation "inv_image (less_than <*lex*> less_than)
         (\<lambda>(w, h, target, fill, stack, visited, d). (card (inBounds w h - visited), length stack))")
  show "wf (inv_image (less_than <*lex*> less_than)
         (\<lambda>(w, h, target, fill, stack, visited, d). (card (inBounds w h - visited), length stack)))"
    by (intro wf_inv_image wf_lex_prod wf_less_than)
next
  fix w h :: nat and target fill :: RGBA and x y :: int and stack visited and d :: "int list"
  assume a: "(x, y) \<notin> visited" "\<not> (x < 0 \<or> int w \<le> x \<or> y < 0 \<or> int h \<le> y)"
  have m: "(x, y) \<in> inBounds w h - visited" using a by (simp add: inBounds_def)
  have f: "finite (inBounds w h - visited)" by (simp add: inBounds_def)
  have "inBounds w h - insert (x, y) visited = (inBounds w h - visited) - {(x, y)}" by auto
  then have "card (inBounds w h - insert (x, y) visited) < card (inBounds w h - visited)"
    using card_Diff1_less[OF f m] by simp
  then show "((w, h, target, fill, (x, y - 1) # (x, y + 1) # (x - 1, y) # (x + 1, y) # stack,
               insert (x, y) visited, setPixel d (getPixelIndex w x y) fill),
              (w, h, target, fill, (x, y) # stack, visited, d))
         \<in> inv_image (less_than <*lex*> less_than)
             (\<lambda>(w, h, target, fill, stack, visited, d). (card (inBounds w h - visited), length stack))"
    by simp
qed simp_all

text \<open>
  \<^verbatim>\<open>floodFill(startX, startY)\<close> with the current hex \<open>color\<close>; the canvas is the
  \<^verbatim>\<open>ImageData\<close> that \<^verbatim>\<open>getImageData\<close> reads and \<^verbatim>\<open>putImageData\<close> writes back.
  \<^verbatim>\<open>hexToRgba(color)\<close> is called without an alpha, which then defaults to 255.
\<close>

definition floodFill :: "string \<Rightarrow> int \<Rightarrow> int \<Rightarrow> ImageData \<Rightarrow> ImageData" where
  "floodFill color startX startY canvas =
     (if \<not> isPixelInBounds (width canvas) (height canvas) startX startY then canvas
      else
        let startIndex = getPixelIndex (width canvas) startX startY;
            target = getPixel (data canvas) startIndex;
            fill = hexToRgba color 255
        in if target = fill then canvas
           else canvas\<lparr>data := floodLoop (width canvas) (height canvas) target fill
                                   [(startX, startY)] {} (data canvas)\<rparr>)"

text \<open>The bytes of \<open>n\<close> pixels that all hold the colour \<open>c\<close>.\<close>

definition pixelBytes :: "RGBA \<Rightarrow> int list" where
  "pixelBytes c = (case c of (r, g, b, a) \<Rightarrow> [r, g, b, a])"

definition uniformData :: "nat \<Rightarrow> RGBA \<Rightarrow> int list" where
  "uniformData n c = concat (replicate n (pixelBytes c))"

text \<open>The alpha channel of a colour.\<close>

definition alphaOf :: "RGBA \<Rightarrow> int" where
  "alphaOf c = (case c of (_, _, _, a) \<Rightarrow> a)"

text \<open>The four axis neighbours that the loop pushes.\<close>

definition nbrs :: "int \<times> int \<Rightarrow> (int \<times> int) set" where
  "nbrs p = (case p of (x, y) \<Rightarrow> {(x + 1, y), (x - 1, y), (x, y + 1), (x, y - 1)})"

declare floodLoop.simps(2) [simp del]

section \<open>Line rasterisation\<close>

text \<open>
  The \<^verbatim>\<open>while (true)\<close> loop of \<^verbatim>\<open>drawLineOnContext\<close>. \<open>stamp cx cy\<close> stands for the call
  \<^verbatim>\<open>drawBrush(cx, cy, ctx, isEraser)\<close> acting on the state \<open>s\<close>. The loop leaves only
  through \<^verbatim>\<open>break\<close>; not returning is the value \<open>None\<close>.
\<close>

partial_function (option) lineLoop ::
  "(int \<Rightarrow> int \<Rightarrow> 's \<Rightarrow> 's) \<Rightarrow> int \<Rightarrow> int \<Rightarrow> int \<Rightarrow> int \<Rightarrow> int \<Rightarrow> int \<Rightarrow> int \<Rightarrow> int \<Rightarrow> int \<Rightarrow> 's \<Rightarrow> 's option" where
  "lineLoop stamp x1 y1 dx dy sx sy err cx cy s =
     (let s' = stamp cx cy s in
      if cx = x1 \<and> cy = y1 then Some s'
      else
        let e2 = 2 * err;
            err1 = (if e2 > - dy then err - dy else err);
            cx1 = (if e2 > - dy then cx + sx else cx);
            err2 = (if e2 < dx then err1 + dx else err1);
            cy1 = (if e2 < dx then cy + sy else cy)
        in lineLoop stamp x1 y1 dx dy sx sy err2 cx1 cy1 s')"

declare lineLoop.simps [code]

text \<open>
  The setup before the loop: \<^verbatim>\<open>dx = Math.abs(x1 - x0)\<close>, \<^verbatim>\<open>dy = Math.abs(y1 - y0)\<close>,
  \<^verbatim>\<open>sx = x0 < x1 ? 1 : -1\<close>, \<^verbatim>\<open>sy = y0 < y1 ? 1 : -1\<close>, \<^verbatim>\<open>err = dx - dy\<close>.
\<close>

definition lineFrom ::
  "(int \<Rightarrow> int \<Rightarrow> 's \<Rightarrow> 's) \<Rightarrow> int \<Rightarrow> int \<Rightarrow> int \<Rightarrow> int \<Rightarrow> 's \<Rightarrow> 's option" where
  "lineFrom stamp x0 y0 x1 y1 s =
     (let dx = \<bar>x1 - x0\<bar>;
          dy = \<bar>y1 - y0\<bar>;
          sx = (if x0 < x1 then 1 else - 1);
          sy = (if y0 < y1 then 1 else - 1);
          err = dx - dy
      in lineLoop stamp x1 y1 dx dy sx sy err x0 y0 s)"

text \<open>\<^verbatim>\<open>drawLineOnContext(x0, y0, x1, y1, ctx, isEraser)\<close> with the current brush.\<close>

definition drawLineOnContext ::
  "Context2D \<Rightarrow> int \<Rightarrow> string \<Rightarrow> rat \<Rightarrow> int \<Rightarrow> int \<Rightarrow> int \<Rightarrow> int \<Rightarrow> bool \<Rightarrow> ImageData \<Rightarrow> ImageData option" where
  "drawLineOnContext ctx brushSize color opacity x0 y0 x1 y1 isEraser canvas =
     lineFrom (\<lambda>cx cy. drawBrush ctx brushSize color opacity cx cy isEraser) x0 y0 x1 y1 canvas"

text \<open>The sequence of centres at which the loop calls \<^verbatim>\<open>drawBrush\<close>.\<close>

definition linePoints :: "int \<Rightarrow> int \<Rightarrow> int \<Rightarrow> int \<Rightarrow> (int \<times> int) list option" where
  "linePoints x0 y0 x1 y1 = lineFrom (\<lambda>cx cy ps. ps @ [(cx, cy)]) x0 y0 x1 y1 []"

text \<open>Two different points that differ by at most one in each coordinate.\<close>

definition adjacent8 :: "int \<times> int \<Rightarrow> int \<times> int \<Rightarrow> bool" where
  "adjacent8 p q = (\<bar>fst p - fst q\<bar> \<le> 1 \<and> \<bar>snd p - snd q\<bar> \<le> 1 \<and> p \<noteq> q)"

section \<open>Floyd-Steinberg dithering\<close>

text \<open>
  The working copy \<^verbatim>\<open>pixels: number[][]\<close> holds JavaScript numbers, that is IEEE 754
  doubles. A finite double is a rational number, so the three colour channels are
  rationals; the fourth entry is only ever copied from the image, so it stays the integer
  alpha byte.
\<close>

type_synonym workPixel = "rat \<times> rat \<times> rat \<times> int"

text \<open>
  Each of \<^verbatim>\<open>+\<close>, \<^verbatim>\<open>-\<close>, \<^verbatim>\<open>*\<close> and \<^verbatim>\<open>/\<close> on doubles returns the exact result rounded to
  the nearest double, a tie going to the double with the even significand. The functions
  below take this rounding of a single operation as the parameter \<open>fl\<close> and apply it once
  after every arithmetic operation of the source; \<open>roundDouble\<close> is the rounding itself.

  \<open>bitLength n\<close> is the number of binary digits of a positive integer, \<open>pow2 e\<close> is
  \<open>2 ^ e\<close> for an integer \<open>e\<close> of either sign, and \<open>binade q\<close> is the exponent \<open>e\<close> with
  \<open>2 ^ e \<le> \<bar>q\<bar> < 2 ^ (e + 1)\<close> for \<open>q \<noteq> 0\<close>: the quotient of a numerator of \<open>m\<close> digits
  and a denominator of \<open>n\<close> digits lies between \<open>2 ^ (m - n - 1)\<close> and \<open>2 ^ (m - n + 1)\<close>.
\<close>

function bitLength :: "int \<Rightarrow> int" where
  "bitLength n = (if n \<le> 0 then 0 else 1 + bitLength (n div 2))"
  by auto

termination
  by (relation "measure nat") auto

declare bitLength.simps [simp del]

definition pow2 :: "int \<Rightarrow> rat" where
  "pow2 e = (if 0 \<le> e then 2 ^ nat e else 1 / 2 ^ nat (- e))"

definition binade :: "rat \<Rightarrow> int" where
  "binade q =
     (case quotient_of \<bar>q\<bar> of (n, d) \<Rightarrow>
        let e = bitLength n - bitLength d
        in if pow2 e \<le> \<bar>q\<bar> then e else e - 1)"

definition roundHalfEven :: "rat \<Rightarrow> int" where
  "roundHalfEven q =
     (let f = \<lfloor>q\<rfloor>; d = q - rat_of_int f
      in if d < 1 / 2 then f else if 1 / 2 < d then f + 1 else if even f then f else f + 1)"

text \<open>
  Doubles have a significand of 53 bits, so in the binade \<open>e\<close> they are the multiples of
  \<open>2 ^ (e - 52)\<close>; below \<open>2 ^ (- 1022)\<close>, the subnormal range, they are the multiples of
  \<open>2 ^ (- 1074)\<close>. Results of magnitude \<open>2 ^ 1024\<close> and more, which JavaScript turns into
  \<^verbatim>\<open>Infinity\<close>, are not rationals and lie outside \<open>roundDouble\<close>.
\<close>

definition roundDouble :: "rat \<Rightarrow> rat" where
  "roundDouble q =
     (if q = 0 then 0
      else let ulp = pow2 (max (binade q - 52) (- 1074))
           in rat_of_int (roundHalfEven (q / ulp)) * ulp)"

definition toWork :: "RGBA \<Rightarrow> workPixel" where
  "toWork c = (case c of (r, g, b, a) \<Rightarrow> (rat_of_int r, rat_of_int g, rat_of_int b, a))"

text \<open>\<^verbatim>\<open>Math.max(0, Math.min(255, Math.round(v)))\<close>\<close>

definition clampRound :: "rat \<Rightarrow> int" where
  "clampRound v = max 0 (min 255 (mathRound v))"

text \<open>
  \<^verbatim>\<open>p += error * k / 16\<close> on one channel: the product, the quotient and the sum are three
  operations, each rounded.
\<close>

definition addShare :: "(rat \<Rightarrow> rat) \<Rightarrow> rat \<Rightarrow> rat \<Rightarrow> rat \<Rightarrow> rat" where
  "addShare fl p error k = fl (p + fl (fl (error * k) / 16))"

text \<open>
  \<^verbatim>\<open>pixels[i][c] += error[c] * k / 16\<close> for the three colour channels of the working
  pixel \<open>i\<close>.
\<close>

definition addError ::
  "(rat \<Rightarrow> rat) \<Rightarrow> workPixel list \<Rightarrow> nat \<Rightarrow> rat \<times> rat \<times> rat \<Rightarrow> rat \<Rightarrow> workPixel list" where
  "addError fl pixels i e k =
     (case e of (errorR, errorG, errorB) \<Rightarrow>
        case pixels ! i of (r, g, b, a) \<Rightarrow>
          pixels[i := (addShare fl r errorR k, addShare fl g errorG k, addShare fl b errorB k, a)])"

text \<open>
  The error of the code: \<^verbatim>\<open>oldPixel[c] - newPixel[c]\<close>, the working value itself minus
  the chosen palette value, one rounded subtraction.
\<close>

definition quantError :: "(rat \<Rightarrow> rat) \<Rightarrow> workPixel \<Rightarrow> RGBA \<Rightarrow> rat \<times> rat \<times> rat" where
  "quantError fl oldPixel newPixel =
     (case oldPixel of (r, g, b, _) \<Rightarrow> case newPixel of (nr, ng, nb, _) \<Rightarrow>
        (fl (r - rat_of_int nr), fl (g - rat_of_int ng), fl (b - rat_of_int nb)))"

text \<open>
  The body of the two loops of \<^verbatim>\<open>applyFloydSteinberg\<close> for the pixel \<open>(x, y)\<close>, on the
  working copy and the bytes of \<^verbatim>\<open>result\<close>. The test \<^verbatim>\<open>x - 1 >= 0\<close> is \<open>1 \<le> x\<close> on
  the natural number \<open>x\<close>.
\<close>

definition fsStep ::
  "(rat \<Rightarrow> rat) \<Rightarrow> nat \<Rightarrow> nat \<Rightarrow> RGBA list \<Rightarrow> workPixel list \<times> int list \<Rightarrow> nat \<times> nat
     \<Rightarrow> jsError + workPixel list \<times> int list" where
  "fsStep fl w h palette st p =
     (case st of (pixels, res) \<Rightarrow> case p of (x, y) \<Rightarrow>
        let idx = y * w + x;
            oldPixel = pixels ! idx
        in case oldPixel of (r, g, b, a) \<Rightarrow>
          if a = 0 then Inr (pixels, setPixel res (idx * 4) (0, 0, 0, 0))
          else
            case findNearestColor (clampRound r, clampRound g, clampRound b, a) palette of
              None \<Rightarrow> Inl TypeError
            | Some newPixel \<Rightarrow>
                (case newPixel of (nr, ng, nb, na) \<Rightarrow>
                  let res1 = setPixel res (idx * 4) (clamp8 nr, clamp8 ng, clamp8 nb, clamp8 a);
                      e = quantError fl oldPixel newPixel;
                      pixels1 = (if x + 1 < w then addError fl pixels (y * w + x + 1) e 7 else pixels);
                      pixels2 = (if y + 1 < h \<and> 1 \<le> x then addError fl pixels1 ((y + 1) * w + x - 1) e 3
                                 else pixels1);
                      pixels3 = (if y + 1 < h then addError fl pixels2 ((y + 1) * w + x) e 5 else pixels2);
                      pixels4 = (if y + 1 < h \<and> x + 1 < w then addError fl pixels3 ((y + 1) * w + x + 1) e 1
                                 else pixels3)
                  in Inr (pixels4, res1)))"

fun fsLoop ::
  "(rat \<Rightarrow> rat) \<Rightarrow> nat \<Rightarrow> nat \<Rightarrow> RGBA list \<Rightarrow> (nat \<times> nat) list \<Rightarrow> workPixel list \<times> int list
     \<Rightarrow> jsError + workPixel list \<times> int list" where
  "fsLoop fl w h palette [] st = Inr st"
| "fsLoop fl w h palette (p # ps) st =
     (case fsStep fl w h palette st p of Inl e \<Rightarrow> Inl e | Inr st1 \<Rightarrow> fsLoop fl w h palette ps st1)"

text \<open>The order of \<^verbatim>\<open>for (y ...) for (x ...)\<close>: row by row.\<close>

definition fsCoords :: "nat \<Rightarrow> nat \<Rightarrow> (nat \<times> nat) list" where
  "fsCoords w h = concat (map (\<lambda>y. map (\<lambda>x. (x, y)) [0 ..< w]) [0 ..< h])"

definition applyFloydSteinberg :: "(rat \<Rightarrow> rat) \<Rightarrow> ImageData \<Rightarrow> RGBA list \<Rightarrow> jsError + ImageData" where
  "applyFloydSteinberg fl imageData palette =
     (let w = width imageData; h = height imageData;
          result = newImageData w h;
          pixels = map (\<lambda>k. toWork (getPixel (data imageData) (4 * k))) [0 ..< w * h]
      in case fsLoop fl w h palette (fsCoords w h) (pixels, data result) of
           Inl e \<Rightarrow> Inl e
         | Inr (_, res) \<Rightarrow> Inr (result\<lparr>data := res\<rparr>))"

text \<open>
  The error as the specification words it: the clamped, rounded working value minus the
  chosen palette value. Both are integers of at most three digits, so the difference is
  a double and no rounding takes place.
\<close>

definition specError :: "workPixel \<Rightarrow> RGBA \<Rightarrow> rat \<times> rat \<times> rat" where
  "specError oldPixel newPixel =
     (case oldPixel of (r, g, b, _) \<Rightarrow> case newPixel of (nr, ng, nb, _) \<Rightarrow>
        (rat_of_int (clampRound r) - rat_of_int nr,
         rat_of_int (clampRound g) - rat_of_int ng,
         rat_of_int (clampRound b) - rat_of_int nb))"

text \<open>
  The sixteenths of the error that the pixel at offset \<open>(dx, dy)\<close> from the processed
  pixel receives: right 7, bottom-left 3, bottom 5, bottom-right 1, every other pixel 0.
\<close>

definition fsWeight :: "int \<Rightarrow> int \<Rightarrow> rat" where
  "fsWeight dx dy =
     (if dx = 1 \<and> dy = 0 then 7
      else if dx = - 1 \<and> dy = 1 then 3
      else if dx = 0 \<and> dy = 1 then 5
      else if dx = 1 \<and> dy = 1 then 1
      else 0)"

text \<open>
  A working pixel with \<open>k\<close> sixteenths of the error \<open>e\<close> added to its colour channels, in
  the arithmetic of the code: each channel is \<open>fl (p + fl (fl (error * k) / 16))\<close>.
\<close>

definition withShare :: "(rat \<Rightarrow> rat) \<Rightarrow> workPixel \<Rightarrow> rat \<times> rat \<times> rat \<Rightarrow> rat \<Rightarrow> workPixel" where
  "withShare fl px e k =
     (case px of (r, g, b, a) \<Rightarrow> case e of (errorR, errorG, errorB) \<Rightarrow>
        (addShare fl r errorR k, addShare fl g errorG k, addShare fl b errorB k, a))"

section \<open>Palette extraction\<close>

datatype Algorithm = MedianCut | KMeans | Frequency

record ReducerOptions =
  colorCount :: nat
  algorithm :: Algorithm
  dithering :: bool

text \<open>\<^verbatim>\<open>extractAllColors\<close>: the pixels whose alpha is not 0, in buffer order.\<close>

definition extractAllColors :: "ImageData \<Rightarrow> RGBA list" where
  "extractAllColors imageData =
     filter (\<lambda>c. alphaOf c \<noteq> 0) (map (getPixel (data imageData)) (pixelStarts imageData))"

text \<open>
  \<^verbatim>\<open>extractColorsWithFrequency\<close>: the \<^verbatim>\<open>Map\<close> keyed by \<^verbatim>\<open>`${r},${g},${b},${a}`\<close>
  is a list of (colour, count) entries in insertion order; \<open>countColor\<close> is the body of the
  loop for one opaque pixel.
\<close>

fun countColor :: "RGBA \<Rightarrow> (RGBA \<times> nat) list \<Rightarrow> (RGBA \<times> nat) list" where
  "countColor c [] = [(c, 1)]"
| "countColor c ((k, n) # entries) =
     (if k = c then (k, n + 1) # entries else (k, n) # countColor c entries)"

definition extractColorsWithFrequency :: "ImageData \<Rightarrow> (RGBA \<times> nat) list" where
  "extractColorsWithFrequency imageData =
     foldl (\<lambda>colorMap i.
              let c = getPixel (data imageData) i
              in if alphaOf c = 0 then colorMap else countColor c colorMap)
           [] (pixelStarts imageData)"

text \<open>\<^verbatim>\<open>countUniqueColors\<close> is the size of that map.\<close>

definition countUniqueColors :: "ImageData \<Rightarrow> nat" where
  "countUniqueColors imageData = length (extractColorsWithFrequency imageData)"

text \<open>
  The deduplication of \<^verbatim>\<open>medianCut\<close> and \<^verbatim>\<open>kMeans\<close>: \<^verbatim>\<open>unique.set(key, c)\<close> for each
  colour, then the values of the map in insertion order. Setting an existing key keeps
  its position.
\<close>

fun uniqueSet :: "RGBA \<Rightarrow> RGBA list \<Rightarrow> RGBA list" where
  "uniqueSet c [] = [c]"
| "uniqueSet c (k # ks) = (if k = c then c # ks else k # uniqueSet c ks)"

definition dedupe :: "RGBA list \<Rightarrow> RGBA list" where
  "dedupe colors = foldl (\<lambda>unique c. uniqueSet c unique) [] colors"

subsection \<open>Median cut\<close>

text \<open>\<^verbatim>\<open>c[channel]\<close>\<close>

definition channelOf :: "RGBA \<Rightarrow> nat \<Rightarrow> int" where
  "channelOf c ch =
     (case c of (r, g, b, a) \<Rightarrow> if ch = 0 then r else if ch = 1 then g else if ch = 2 then b else a)"

text \<open>\<^verbatim>\<open>max - min\<close> of one channel over a box, with \<^verbatim>\<open>min = 255\<close> and \<^verbatim>\<open>max = 0\<close> to start.\<close>

definition channelRange :: "RGBA list \<Rightarrow> nat \<Rightarrow> int" where
  "channelRange box ch =
     (let lo = foldl (\<lambda>m c. if channelOf c ch < m then channelOf c ch else m) 255 box;
          hi = foldl (\<lambda>m c. if channelOf c ch > m then channelOf c ch else m) 0 box
      in hi - lo)"

text \<open>
  The search for the box and channel with the largest range; the state is
  \<open>(maxRange, maxBoxIndex, splitChannel)\<close>, starting at \<open>(-1, 0, 0)\<close>.
\<close>

definition scanBox :: "int \<times> nat \<times> nat \<Rightarrow> nat \<times> RGBA list \<Rightarrow> int \<times> nat \<times> nat" where
  "scanBox st ib =
     (case ib of (i, box) \<Rightarrow>
        if length box \<le> 1 then st
        else foldl (\<lambda>(maxRange, maxBoxIndex, splitChannel) ch.
                      let range = channelRange box ch
                      in if range > maxRange then (range, i, ch)
                         else (maxRange, maxBoxIndex, splitChannel))
                   st [0, 1, 2])"

definition findSplit :: "RGBA list list \<Rightarrow> int \<times> nat \<times> nat" where
  "findSplit boxes = foldl scanBox (- 1, 0, 0) (zip [0 ..< length boxes] boxes)"

text \<open>
  The split: a stable sort of the box by the channel, a cut at
  \<^verbatim>\<open>Math.floor(length / 2)\<close>, and \<^verbatim>\<open>boxes.splice(maxBoxIndex, 1, box1, box2)\<close>.
\<close>

definition splitBox :: "RGBA list list \<Rightarrow> nat \<Rightarrow> nat \<Rightarrow> RGBA list list" where
  "splitBox boxes maxBoxIndex splitChannel =
     (let sorted = sort_key (\<lambda>c. channelOf c splitChannel) (boxes ! maxBoxIndex);
          median = length sorted div 2;
          box1 = take median sorted;
          box2 = drop median sorted
      in take maxBoxIndex boxes @ [box1, box2] @ drop (maxBoxIndex + 1) boxes)"

function medianCutLoop :: "nat \<Rightarrow> RGBA list list \<Rightarrow> RGBA list list" where
  "medianCutLoop targetCount boxes =
     (if length boxes < targetCount then
        (case findSplit boxes of (maxRange, maxBoxIndex, splitChannel) \<Rightarrow>
           if maxRange \<le> 0 then boxes
           else medianCutLoop targetCount (splitBox boxes maxBoxIndex splitChannel))
      else boxes)"
  by pat_completeness auto

termination
proof (relation "measure (\<lambda>(targetCount, boxes). targetCount - length boxes)")
  fix targetCount :: nat and boxes :: "RGBA list list" and x :: "int \<times> nat \<times> nat" and maxRange :: int
    and y :: "nat \<times> nat" and maxBoxIndex splitChannel :: nat
  assume "length boxes < targetCount"
  then show "((targetCount, splitBox boxes maxBoxIndex splitChannel), (targetCount, boxes))
               \<in> measure (\<lambda>(targetCount, boxes). targetCount - length boxes)"
    by (simp add: splitBox_def Let_def)
qed simp

declare medianCutLoop.simps [simp del]

text \<open>The rounded mean of a box, channel by channel, alpha included.\<close>

definition averageColor :: "RGBA list \<Rightarrow> RGBA" where
  "averageColor box =
     (let n = rat_of_int (int (length box));
          r = rat_of_int (sum_list (map (\<lambda>c. channelOf c 0) box));
          g = rat_of_int (sum_list (map (\<lambda>c. channelOf c 1) box));
          b = rat_of_int (sum_list (map (\<lambda>c. channelOf c 2) box));
          a = rat_of_int (sum_list (map (\<lambda>c. channelOf c 3) box))
      in (mathRound (r / n), mathRound (g / n), mathRound (b / n), mathRound (a / n)))"

definition medianCut :: "RGBA list \<Rightarrow> nat \<Rightarrow> RGBA list" where
  "medianCut colors targetCount =
     (if length colors = 0 then []
      else if length colors \<le> targetCount then dedupe colors
      else map averageColor (filter (\<lambda>box. length box \<noteq> 0) (medianCutLoop targetCount [colors])))"

subsection \<open>K-means\<close>

text \<open>
  A distance that may be \<^verbatim>\<open>Infinity\<close> (\<open>None\<close>): \<open>extLess a b\<close> is \<^verbatim>\<open>a < b\<close>.
\<close>

definition extLess :: "int option \<Rightarrow> int option \<Rightarrow> bool" where
  "extLess a b =
     (case a of None \<Rightarrow> False | Some x \<Rightarrow> (case b of None \<Rightarrow> True | Some y \<Rightarrow> x < y))"

text \<open>\<^verbatim>\<open>minDistToCentroid\<close> of one colour.\<close>

definition minDistToCentroid :: "RGBA \<Rightarrow> RGBA list \<Rightarrow> int option" where
  "minDistToCentroid color centroids =
     foldl (\<lambda>m centroid.
              let distance = colorDistance color centroid
              in if extLess (Some distance) m then Some distance else m)
           None centroids"

text \<open>
  One round of the seeding loop: the colour with the largest \<^verbatim>\<open>minDistToCentroid\<close>,
  starting from \<^verbatim>\<open>maxDist = -1\<close> and \<^verbatim>\<open>farthestColor = colors[0]\<close> (here \<open>c0\<close>).
\<close>

definition farthestColor :: "RGBA \<Rightarrow> RGBA list \<Rightarrow> RGBA list \<Rightarrow> RGBA" where
  "farthestColor c0 colors centroids =
     snd (foldl (\<lambda>(maxDist, farthest) color.
                   let m = minDistToCentroid color centroids
                   in if extLess maxDist m then (m, color) else (maxDist, farthest))
                (Some (- 1), c0) colors)"

function seedLoop :: "nat \<Rightarrow> RGBA \<Rightarrow> RGBA list \<Rightarrow> RGBA list \<Rightarrow> RGBA list" where
  "seedLoop targetCount c0 colors centroids =
     (if length centroids < targetCount
      then seedLoop targetCount c0 colors (centroids @ [farthestColor c0 colors centroids])
      else centroids)"
  by pat_completeness auto

termination
  by (relation "measure (\<lambda>(targetCount, c0, colors, centroids). targetCount - length centroids)") auto

declare seedLoop.simps [simp del]

text \<open>The index of the nearest centroid: \<^verbatim>\<open>minDist = Infinity\<close>, \<^verbatim>\<open>nearestIndex = 0\<close>.\<close>

definition nearestIndex :: "RGBA \<Rightarrow> RGBA list \<Rightarrow> nat" where
  "nearestIndex color centroids =
     snd (foldl (\<lambda>(minDist, nearest) (i, centroid).
                   let distance = colorDistance color centroid
                   in if extLess (Some distance) minDist then (Some distance, i) else (minDist, nearest))
                (None, 0) (zip [0 ..< length centroids] centroids))"

definition assignClusters :: "RGBA list \<Rightarrow> RGBA list \<Rightarrow> RGBA list list" where
  "assignClusters colors centroids =
     foldl (\<lambda>clusters color.
              let i = nearestIndex color centroids
              in clusters[i := clusters ! i @ [color]])
           (map (\<lambda>_. []) centroids) colors"

text \<open>
  The update loop: an empty cluster keeps its centroid; a centroid is replaced, and
  \<open>changed\<close> set, only when the new mean differs in R, G or B.
\<close>

definition updateCentroids :: "RGBA list \<Rightarrow> RGBA list list \<Rightarrow> bool \<times> RGBA list" where
  "updateCentroids centroids clusters =
     foldl (\<lambda>(changed, cs) i.
              if length (clusters ! i) = 0 then (changed, cs)
              else
                let newCentroid = averageColor (clusters ! i)
                in if channelOf newCentroid 0 \<noteq> channelOf (cs ! i) 0
                      \<or> channelOf newCentroid 1 \<noteq> channelOf (cs ! i) 1
                      \<or> channelOf newCentroid 2 \<noteq> channelOf (cs ! i) 2
                   then (True, cs[i := newCentroid])
                   else (changed, cs))
           (False, centroids) [0 ..< length centroids]"

text \<open>
  \<^verbatim>\<open>for (let iter = 0; iter < maxIterations; iter++)\<close> with its \<^verbatim>\<open>break\<close>; the result is
  the centroids and the number of times the loop body ran.
\<close>

function refineLoop :: "nat \<Rightarrow> nat \<Rightarrow> RGBA list \<Rightarrow> RGBA list \<Rightarrow> RGBA list \<times> nat" where
  "refineLoop iter maxIterations colors centroids =
     (if iter < maxIterations then
        (case updateCentroids centroids (assignClusters colors centroids) of
           (changed, centroids1) \<Rightarrow>
             if \<not> changed then (centroids1, iter + 1)
             else refineLoop (iter + 1) maxIterations colors centroids1)
      else (centroids, iter))"
  by pat_completeness auto

termination
  by (relation "measure (\<lambda>(iter, maxIterations, colors, centroids). maxIterations - iter)") auto

declare refineLoop.simps [simp del]

text \<open>
  \<^verbatim>\<open>kMeans\<close> with the number of refinement rounds it ran. \<^verbatim>\<open>Math.random()\<close> is the
  parameter \<open>randomIndex\<close>: \<^verbatim>\<open>Math.floor(Math.random() * colors.length)\<close> is an index below
  \<^verbatim>\<open>colors.length\<close>, here \<open>randomIndex mod length colors\<close>.
\<close>

definition kMeansRun :: "nat \<Rightarrow> RGBA list \<Rightarrow> nat \<Rightarrow> nat \<Rightarrow> RGBA list \<times> nat" where
  "kMeansRun randomIndex colors targetCount maxIterations =
     (case colors of
        [] \<Rightarrow> ([], 0)
      | c0 # _ \<Rightarrow>
          if length colors \<le> targetCount then (dedupe colors, 0)
          else
            let centroids = seedLoop targetCount c0 colors [colors ! (randomIndex mod length colors)]
            in refineLoop 0 maxIterations colors centroids)"

definition kMeans :: "nat \<Rightarrow> RGBA list \<Rightarrow> nat \<Rightarrow> RGBA list" where
  "kMeans randomIndex colors targetCount = fst (kMeansRun randomIndex colors targetCount 20)"

subsection \<open>Frequency\<close>

text \<open>
  \<^verbatim>\<open>sort((a, b) => b.count - a.count)\<close> is a stable sort by descending count;
  \<^verbatim>\<open>slice(0, targetCount)\<close> keeps the first \<open>targetCount\<close> entries.
\<close>

definition frequencyBased :: "(RGBA \<times> nat) list \<Rightarrow> nat \<Rightarrow> RGBA list" where
  "frequencyBased colorMap targetCount =
     map fst (take targetCount (sort_key (\<lambda>entry. - int (snd entry)) colorMap))"

definition extractPalette :: "nat \<Rightarrow> ImageData \<Rightarrow> ReducerOptions \<Rightarrow> RGBA list" where
  "extractPalette randomIndex imageData options =
     (if algorithm options = Frequency
      then frequencyBased (extractColorsWithFrequency imageData) (colorCount options)
      else
        let colors = extractAllColors imageData
        in if algorithm options = MedianCut then medianCut colors (colorCount options)
           else kMeans randomIndex colors (colorCount options))"

text \<open>
  The distinct colours of a list in the order of their first occurrence
  (\<open>remdups\<close> keeps last occurrences, so it runs on the reversed list).
\<close>

definition firstSeen :: "RGBA list \<Rightarrow> RGBA list" where
  "firstSeen colors = rev (remdups (rev colors))"

text \<open>The colour channels of a colour without its alpha.\<close>

definition rgbOf :: "RGBA \<Rightarrow> int \<times> int \<times> int" where
  "rgbOf c = (case c of (r, g, b, _) \<Rightarrow> (r, g, b))"

chapter \<open>Properties\<close>

section \<open>Brush stamping: properties\<close>

subsection \<open>The footprint\<close>

lemma set_brushOffsets:
  "set (brushOffsets s) = {(dx, dy). - (s div 2) \<le> dx \<and> dx < s - s div 2 \<and> - (s div 2) \<le> dy \<and> dy < s - s div 2}"
  by (auto simp: brushOffsets_def Let_def)

lemma distinct_brushOffsets: "distinct (brushOffsets s)"
  unfolding brushOffsets_def Let_def
  by (rule distinct_concat) (auto simp: distinct_map inj_on_def)

lemma length_brushOffsets: "0 \<le> s \<Longrightarrow> length (brushOffsets s) = nat (s * s)"
  by (simp add: brushOffsets_def Let_def length_concat comp_def sum_list_triv nat_mult_distrib)

text \<open>
  C9 (as stated): the offsets range over \<open>[-half, size-1-half)\<close> in each axis. The loops
  run to \<open>size-1-half\<close> inclusive: at size 1 the footprint is the single offset
  \<open>(0, 0)\<close>, which the stated half-open range excludes.
\<close>

theorem brushOffsets_spec_range_counterexample:
  "(0, 0) \<in> set (brushOffsets 1) \<and> \<not> specOffsetRange 1 0"
  by (simp add: set_brushOffsets specOffsetRange_def)

text \<open>
  C9 (amended): for every brush size of at least 1, with \<open>half = floor(size/2)\<close>, the
  footprint is exactly the square of offsets \<open>(dx, dy)\<close> with
  \<open>-half \<le> dx, dy < size - half\<close> (that is, up to \<open>size-1-half\<close> inclusive), each
  visited once, \<open>size * size\<close> of them, and it is not empty.
\<close>

theorem brushOffsets_footprint:
  assumes "1 \<le> brushSize"
  shows "set (brushOffsets brushSize) = {(dx, dy). loopOffsetRange brushSize dx \<and> loopOffsetRange brushSize dy}
       \<and> distinct (brushOffsets brushSize)
       \<and> length (brushOffsets brushSize) = nat (brushSize * brushSize)
       \<and> brushOffsets brushSize \<noteq> []"
proof -
  have s: "set (brushOffsets brushSize) = {(dx, dy). loopOffsetRange brushSize dx \<and> loopOffsetRange brushSize dy}"
    by (auto simp: set_brushOffsets loopOffsetRange_def)
  have l: "length (brushOffsets brushSize) = nat (brushSize * brushSize)"
    using assms by (simp add: length_brushOffsets)
  have "0 < brushSize * brushSize" using assms by simp
  then have "brushOffsets brushSize \<noteq> []" using l by auto
  then show ?thesis using s l distinct_brushOffsets by blast
qed

theorem brushOffsets_footprint_witness:
  "set (brushOffsets 2) = {(dx, dy). loopOffsetRange 2 dx \<and> loopOffsetRange 2 dy}
   \<and> distinct (brushOffsets 2) \<and> length (brushOffsets 2) = 4 \<and> brushOffsets 2 \<noteq> []"
  using brushOffsets_footprint[of 2] by simp

subsection \<open>Pixel addressing\<close>

lemma getPixelIndex_nat:
  assumes "isPixelInBounds w h x y"
  shows "getPixelIndex w x y = 4 * (nat y * w + nat x)" "nat x < w" "nat y < h"
proof -
  from assms have x: "0 \<le> x" "x < int w" and y: "0 \<le> y" "y < int h" by (auto simp: isPixelInBounds_def)
  have "(y * int w + x) * 4 = int (4 * (nat y * w + nat x))" using x y by simp
  then show "getPixelIndex w x y = 4 * (nat y * w + nat x)"
    unfolding getPixelIndex_def by (simp only: nat_int)
  show "nat x < w" "nat y < h" using x y by auto
qed

lemma cell_bound: "(a::nat) < w \<Longrightarrow> b < h \<Longrightarrow> b * w + a < w * h"
proof -
  assume a: "a < w" "b < h"
  have "b * w + a < (b + 1) * w" using a by simp
  also have "\<dots> \<le> h * w" using a by (intro mult_le_mono1) auto
  finally show ?thesis by (simp add: mult.commute)
qed

lemma cell_inj: "(a::nat) < w \<Longrightarrow> a' < w \<Longrightarrow> b * w + a = b' * w + a' \<Longrightarrow> a = a' \<and> b = b'"
proof -
  assume a: "a < w" "a' < w" "b * w + a = b' * w + a'"
  have "(b * w + a) div w = b" "(b * w + a) mod w = a" using a(1) by simp_all
  moreover have "(b' * w + a') div w = b'" "(b' * w + a') mod w = a'" using a(2) by simp_all
  ultimately show ?thesis using a(3) by metis
qed

lemma getPixelIndex_bound:
  "isPixelInBounds w h x y \<Longrightarrow> getPixelIndex w x y + 3 < w * h * 4"
  using getPixelIndex_nat[of w h x y] cell_bound[of "nat x" w "nat y" h] by simp

lemma getPixelIndex_inj:
  assumes "isPixelInBounds w h x y" "isPixelInBounds w h x' y'"
  shows "(getPixelIndex w x y = getPixelIndex w x' y') = (x = x' \<and> y = y')"
proof
  assume e: "getPixelIndex w x y = getPixelIndex w x' y'"
  from assms have p: "0 \<le> x" "0 \<le> y" "0 \<le> x'" "0 \<le> y'" by (auto simp: isPixelInBounds_def)
  from e have "nat y * w + nat x = nat y' * w + nat x'"
    using getPixelIndex_nat(1)[OF assms(1)] getPixelIndex_nat(1)[OF assms(2)] by simp
  then have "nat x = nat x' \<and> nat y = nat y'"
    using cell_inj getPixelIndex_nat(2)[OF assms(1)] getPixelIndex_nat(2)[OF assms(2)] by blast
  then show "x = x' \<and> y = y'" using p by (metis nat_eq_iff)
qed simp

lemma length_setPixel [simp]: "length (setPixel d i c) = length d"
  by (simp add: setPixel_def split: prod.splits)

lemma getPixelIndex_sep:
  assumes "isPixelInBounds w h x y" "isPixelInBounds w h x' y'" "(x, y) \<noteq> (x', y')"
  shows "getPixelIndex w x y + 3 < getPixelIndex w x' y' \<or> getPixelIndex w x' y' + 3 < getPixelIndex w x y"
proof -
  have "getPixelIndex w x y \<noteq> getPixelIndex w x' y'"
    using getPixelIndex_inj[OF assms(1,2)] assms(3) by simp
  moreover obtain k j where "getPixelIndex w x y = 4 * k" "getPixelIndex w x' y' = 4 * j"
    using getPixelIndex_nat(1)[OF assms(1)] getPixelIndex_nat(1)[OF assms(2)] by blast
  ultimately show ?thesis by arith
qed

lemma getPixel_setPixel_same: "i + 3 < length d \<Longrightarrow> getPixel (setPixel d i c) i = c"
  by (simp add: getPixel_def setPixel_def split: prod.splits)

lemma getPixel_setPixel_other:
  "i + 3 < j \<or> j + 3 < i \<Longrightarrow> getPixel (setPixel d i c) j = getPixel d j"
  by (auto simp: getPixel_def setPixel_def split: prod.splits)

subsection \<open>Stamping\<close>

lemma stampPixel_dims [simp]:
  "width (stampPixel ctx paint er cv p) = width cv"
  "height (stampPixel ctx paint er cv p) = height cv"
  "length (data (stampPixel ctx paint er cv p)) = length (data cv)"
  by (simp_all add: stampPixel_def Let_def split: prod.splits)

lemma stampPixel_pixel:
  assumes len: "length (data cv) = width cv * height cv * 4"
    and inb: "isPixelInBounds (width cv) (height cv) x y"
  shows "getPixel (data (stampPixel ctx paint er cv p)) (getPixelIndex (width cv) x y) =
     (if p = (x, y)
      then (if er then clearPixel ctx (getPixel (data cv) (getPixelIndex (width cv) x y))
            else fillPixel ctx paint (getPixel (data cv) (getPixelIndex (width cv) x y)))
      else getPixel (data cv) (getPixelIndex (width cv) x y))"
proof (cases p)
  case (Pair px py)
  show ?thesis
  proof (cases "isPixelInBounds (width cv) (height cv) px py")
    case False
    then have "p \<noteq> (x, y)" using inb Pair by auto
    then show ?thesis using False Pair by (auto simp: stampPixel_def)
  next
    case True
    note inb' = True
    show ?thesis
    proof (cases "p = (x, y)")
      case True
      then show ?thesis
        using Pair inb getPixelIndex_bound[OF inb] len
        by (simp add: stampPixel_def Let_def getPixel_setPixel_same)
    next
      case False
      then have "(px, py) \<noteq> (x, y)" using Pair by simp
      from getPixelIndex_sep[OF inb' inb this] show ?thesis
        using Pair inb' False
        by (auto simp: stampPixel_def Let_def getPixel_setPixel_other)
    qed
  qed
qed

lemma foldl_stampPixel_dims [simp]:
  "width (foldl (stampPixel ctx paint er) cv ps) = width cv"
  "height (foldl (stampPixel ctx paint er) cv ps) = height cv"
  "length (data (foldl (stampPixel ctx paint er) cv ps)) = length (data cv)"
  by (induction ps arbitrary: cv) simp_all

lemma foldl_stampPixel_pixel:
  assumes "length (data cv) = width cv * height cv * 4"
    and "isPixelInBounds (width cv) (height cv) x y"
    and "distinct ps"
  shows "getPixel (data (foldl (stampPixel ctx paint er) cv ps)) (getPixelIndex (width cv) x y) =
     (if (x, y) \<in> set ps
      then (if er then clearPixel ctx (getPixel (data cv) (getPixelIndex (width cv) x y))
            else fillPixel ctx paint (getPixel (data cv) (getPixelIndex (width cv) x y)))
      else getPixel (data cv) (getPixelIndex (width cv) x y))"
  using assms
proof (induction ps arbitrary: cv)
  case Nil
  then show ?case by simp
next
  case (Cons p ps)
  let ?cv = "stampPixel ctx paint er cv p"
  have len: "length (data ?cv) = width ?cv * height ?cv * 4" using Cons.prems(1) by simp
  have inb: "isPixelInBounds (width ?cv) (height ?cv) x y" using Cons.prems(2) by simp
  have d: "distinct ps" "p \<notin> set ps" using Cons.prems(3) by auto
  have "getPixel (data (foldl (stampPixel ctx paint er) ?cv ps)) (getPixelIndex (width ?cv) x y) =
     (if (x, y) \<in> set ps
      then (if er then clearPixel ctx (getPixel (data ?cv) (getPixelIndex (width ?cv) x y))
            else fillPixel ctx paint (getPixel (data ?cv) (getPixelIndex (width ?cv) x y)))
      else getPixel (data ?cv) (getPixelIndex (width ?cv) x y))"
    by (rule Cons.IH[OF len inb d(1)])
  then show ?case
    using stampPixel_pixel[OF Cons.prems(1) Cons.prems(2), of ctx paint er p] d(2)
    by auto
qed

lemma drawBrush_dims [simp]:
  "width (drawBrush ctx bs color op cx cy er cv) = width cv"
  "height (drawBrush ctx bs color op cx cy er cv) = height cv"
  "length (data (drawBrush ctx bs color op cx cy er cv)) = length (data cv)"
  by (simp_all add: drawBrush_def)

lemma drawBrush_centres:
  "distinct (map (\<lambda>(dx, dy). (cx + dx, cy + dy)) (brushOffsets bs))"
  "((x, y) \<in> set (map (\<lambda>(dx, dy). (cx + dx, cy + dy)) (brushOffsets bs))) = ((x - cx, y - cy) \<in> set (brushOffsets bs))"
proof -
  show "distinct (map (\<lambda>(dx, dy). (cx + dx, cy + dy)) (brushOffsets bs))"
    by (auto simp: distinct_map distinct_brushOffsets inj_on_def)
  show "((x, y) \<in> set (map (\<lambda>(dx, dy). (cx + dx, cy + dy)) (brushOffsets bs))) = ((x - cx, y - cy) \<in> set (brushOffsets bs))"
    by (force simp: image_iff)
qed

lemma drawBrush_pixel:
  assumes "length (data canvas) = width canvas * height canvas * 4"
    and "isPixelInBounds (width canvas) (height canvas) x y"
  shows "getPixel (data (drawBrush ctx brushSize color opacity centerX centerY er canvas))
           (getPixelIndex (width canvas) x y) =
     (if (x - centerX, y - centerY) \<in> set (brushOffsets brushSize)
      then (if er then clearPixel ctx (getPixel (data canvas) (getPixelIndex (width canvas) x y))
            else fillPixel ctx (brushPaint color opacity) (getPixel (data canvas) (getPixelIndex (width canvas) x y)))
      else getPixel (data canvas) (getPixelIndex (width canvas) x y))"
  unfolding drawBrush_def
  using foldl_stampPixel_pixel[OF assms drawBrush_centres(1), of ctx "brushPaint color opacity" er centerX centerY brushSize]
  by (simp only: drawBrush_centres(2))

text \<open>
  C1 (as stated): a stamp writes the paint over each footprint pixel without compositing,
  so a second stamp at opacity below 1 changes nothing. The program paints through
  \<^verbatim>\<open>fillRect\<close> with an \<^verbatim>\<open>rgba(...)\<close> fill style; under the canvas's source-over
  compositing one stamp of red at opacity 1/2 on opaque white does not leave the paint
  \<open>(255, 0, 0, 128)\<close>, and on a transparent pixel a second stamp raises the alpha again.
\<close>

theorem drawBrush_overwrite_counterexample:
  "getPixel (data (drawBrush canvas2D 1 ''#ff0000'' (1 / 2) 0 0 False
       \<lparr>width = 1, height = 1, data = [255, 255, 255, 255]\<rparr>)) 0 \<noteq> brushPaint ''#ff0000'' (1 / 2)
   \<and> drawBrush canvas2D 1 ''#ff0000'' (1 / 2) 0 0 False
        (drawBrush canvas2D 1 ''#ff0000'' (1 / 2) 0 0 False \<lparr>width = 1, height = 1, data = [0, 0, 0, 0]\<rparr>)
      \<noteq> drawBrush canvas2D 1 ''#ff0000'' (1 / 2) 0 0 False \<lparr>width = 1, height = 1, data = [0, 0, 0, 0]\<rparr>"
  by code_simp

text \<open>
  C1 (amended): for every canvas context, buffer, brush colour and opacity, a stamp
  applies the context's fill with the paint \<open>rgba(r, g, b, round(opacity * 255))\<close> exactly
  once to each in-bounds pixel of the footprint and leaves every other pixel as it was;
  the value written is whatever the context's fill makes of the paint and the pixel's
  old value.
\<close>

theorem drawBrush_fills_footprint_once:
  assumes "length (data canvas) = width canvas * height canvas * 4"
    and "isPixelInBounds (width canvas) (height canvas) x y"
  shows "getPixel (data (drawBrush ctx brushSize color opacity centerX centerY False canvas))
           (getPixelIndex (width canvas) x y) =
     (if (x - centerX, y - centerY) \<in> set (brushOffsets brushSize)
      then fillPixel ctx (brushPaint color opacity) (getPixel (data canvas) (getPixelIndex (width canvas) x y))
      else getPixel (data canvas) (getPixelIndex (width canvas) x y))"
  using drawBrush_pixel[OF assms, of ctx brushSize color opacity centerX centerY False] by simp

theorem drawBrush_fills_footprint_once_witness:
  "getPixel (data (drawBrush overwriteContext 1 ''#ff0000'' (1 / 2) 1 0 False
       \<lparr>width = 2, height = 1, data = [1, 2, 3, 4, 5, 6, 7, 8]\<rparr>)) (getPixelIndex 2 1 0) = (255, 0, 0, 128)
   \<and> getPixel (data (drawBrush overwriteContext 1 ''#ff0000'' (1 / 2) 1 0 False
       \<lparr>width = 2, height = 1, data = [1, 2, 3, 4, 5, 6, 7, 8]\<rparr>)) (getPixelIndex 2 0 0) = (1, 2, 3, 4)"
proof -
  let ?cv = "\<lparr>width = 2, height = 1, data = [1, 2, 3, 4, 5, 6, 7, 8]\<rparr>"
  have len: "length (data ?cv) = width ?cv * height ?cv * 4" by simp
  have b1: "isPixelInBounds (width ?cv) (height ?cv) 1 0" and b0: "isPixelInBounds (width ?cv) (height ?cv) 0 0"
    by (simp_all add: isPixelInBounds_def)
  have p: "brushPaint ''#ff0000'' (1 / 2) = (255, 0, 0, 128)" by code_simp
  have o: "set (brushOffsets 1) = {(0, 0)}" by (auto simp: set_brushOffsets)
  show ?thesis
    using drawBrush_fills_footprint_once[OF len b1, of overwriteContext 1 "''#ff0000''" "1 / 2" 1 0]
      drawBrush_fills_footprint_once[OF len b0, of overwriteContext 1 "''#ff0000''" "1 / 2" 1 0]
    by (simp add: p o overwriteContext_def getPixel_def getPixelIndex_def)
qed

section \<open>Nearest colour and remapping: properties\<close>

subsection \<open>Remapping twice\<close>

lemma colorDistance_nonneg: "0 \<le> colorDistance c1 c2"
  by (simp add: colorDistance_def Let_def split: prod.splits)

lemma colorDistance_zero:
  "colorDistance (r1, g1, b1, a1) (r2, g2, b2, a2) = 0 \<longleftrightarrow> r1 = r2 \<and> g1 = g2 \<and> b1 = b2"
proof -
  have "(r1 - r2) * (r1 - r2) + (g1 - g2) * (g1 - g2) + (b1 - b2) * (b1 - b2) = 0
        \<longleftrightarrow> r1 - r2 = 0 \<and> g1 - g2 = 0 \<and> b1 - b2 = 0"
    by (smt (verit) mult_eq_0_iff zero_le_square)
  then show ?thesis by (simp add: colorDistance_def Let_def)
qed

lemma nearest_fold:
  assumes "q \<in> S" "\<forall>p\<in>S. colorDistance c q \<le> colorDistance c p"
  shows "\<exists>q'. foldl (nearestStep c) (Some (colorDistance c q), Some q) ps = (Some (colorDistance c q'), Some q')
            \<and> q' \<in> S \<union> set ps \<and> (\<forall>p\<in>S \<union> set ps. colorDistance c q' \<le> colorDistance c p)"
  using assms
proof (induction ps arbitrary: q S)
  case Nil
  then show ?case by (intro exI[of _ q]) simp
next
  case (Cons p ps)
  show ?case
  proof (cases "colorDistance c p < colorDistance c q")
    case True
    have "p \<in> insert p S" "\<forall>x\<in>insert p S. colorDistance c p \<le> colorDistance c x"
      using True Cons.prems by auto
    from Cons.IH[OF this] show ?thesis using True by (simp add: nearestStep_def belowMin_def)
  next
    case False
    have "q \<in> insert p S" "\<forall>x\<in>insert p S. colorDistance c q \<le> colorDistance c x"
      using False Cons.prems by auto
    from Cons.IH[OF this] show ?thesis using False by (simp add: nearestStep_def belowMin_def)
  qed
qed

lemma findNearestColor_min:
  assumes "palette \<noteq> []"
  shows "\<exists>q. findNearestColor c palette = Some q \<and> q \<in> set palette
           \<and> (\<forall>p\<in>set palette. colorDistance c q \<le> colorDistance c p)"
proof -
  obtain p ps where P: "palette = p # ps" using assms by (cases palette) auto
  have "p \<in> {p}" "\<forall>x\<in>{p}. colorDistance c p \<le> colorDistance c x" by auto
  from nearest_fold[OF this, of ps] obtain q' where
    "foldl (nearestStep c) (Some (colorDistance c p), Some p) ps = (Some (colorDistance c q'), Some q')"
    "q' \<in> {p} \<union> set ps" "\<forall>x\<in>{p} \<union> set ps. colorDistance c q' \<le> colorDistance c x" by blast
  then show ?thesis
    unfolding findNearestColor_def P nearestStep_def[symmetric]
    by (simp add: nearestStep_def[of c, THEN fun_cong, THEN fun_cong] belowMin_def)
qed

lemma clamp8_id: "0 \<le> v \<Longrightarrow> v \<le> 255 \<Longrightarrow> clamp8 v = v"
  by (simp add: clamp8_def)

lemma remapPixel_total:
  assumes "palette \<noteq> []"
  shows "\<exists>c'. remapPixel palette c = Inr c'"
proof (cases c)
  case (fields r g b a)
  obtain q where "findNearestColor (r, g, b, a) palette = Some q"
    using findNearestColor_min[OF assms] by blast
  then show ?thesis using fields by (cases q) (simp add: remapPixel_def)
qed

lemma remapPixel_idem:
  assumes ne: "palette \<noteq> []" and vp: "list_all validColor palette" and vc: "validColor c"
    and r: "remapPixel palette c = Inr c'"
  shows "remapPixel palette c' = Inr c'"
proof (cases c)
  case (fields r g b a)
  show ?thesis
  proof (cases "a = 0")
    case True
    then have "c' = (0, 0, 0, 0)" using r fields by (simp add: remapPixel_def)
    then show ?thesis by (simp add: remapPixel_def)
  next
    case False
    obtain q where q: "findNearestColor (r, g, b, a) palette = Some q" "q \<in> set palette"
      using findNearestColor_min[OF ne] by blast
    obtain nr ng nb na where qf: "q = (nr, ng, nb, na)" by (cases q) auto
    have "validColor q" using vp q(2) by (simp add: list_all_iff)
    then have vq: "clamp8 nr = nr" "clamp8 ng = ng" "clamp8 nb = nb"
      using qf by (simp_all add: validColor_def clamp8_id)
    have va: "clamp8 a = a" using vc fields by (simp add: validColor_def clamp8_id)
    have c': "c' = (nr, ng, nb, a)"
      using r fields False q(1) qf vq va by (simp add: remapPixel_def)
    obtain q' where q': "findNearestColor (nr, ng, nb, a) palette = Some q'"
      "\<forall>p\<in>set palette. colorDistance (nr, ng, nb, a) q' \<le> colorDistance (nr, ng, nb, a) p"
      "q' \<in> set palette"
      using findNearestColor_min[OF ne] by blast
    obtain mr mg mb ma where q'f: "q' = (mr, mg, mb, ma)" by (cases q') auto
    have "colorDistance (nr, ng, nb, a) q' \<le> colorDistance (nr, ng, nb, a) q"
      using q'(2) q(2) by blast
    also have "colorDistance (nr, ng, nb, a) q = 0" unfolding qf by (simp add: colorDistance_zero)
    finally have "colorDistance (nr, ng, nb, a) q' = 0"
      using colorDistance_nonneg[of "(nr, ng, nb, a)" q'] by simp
    then have "mr = nr \<and> mg = ng \<and> mb = nb" unfolding q'f by (simp add: colorDistance_zero)
    then show ?thesis
      unfolding c' using q'(1) q'f False vq va by (simp add: remapPixel_def)
  qed
qed

lemma remapLoop_spec:
  assumes "palette \<noteq> []" "distinct ks" "\<forall>k\<in>set ks. 4 * k + 3 < length res"
  shows "\<exists>res'. remapLoop palette d (map (\<lambda>k. 4 * k) ks) res = Inr res' \<and> length res' = length res
       \<and> (\<forall>j. getPixel res' (4 * j) =
             (if j \<in> set ks then projr (remapPixel palette (getPixel d (4 * j))) else getPixel res (4 * j)))"
  using assms(2,3)
proof (induction ks arbitrary: res)
  case Nil
  then show ?case by simp
next
  case (Cons k ks)
  obtain c where c: "remapPixel palette (getPixel d (4 * k)) = Inr c"
    using remapPixel_total[OF assms(1)] by blast
  let ?res = "setPixel res (4 * k) c"
  have "distinct ks" "\<forall>k\<in>set ks. 4 * k + 3 < length ?res" using Cons.prems by auto
  from Cons.IH[OF this] obtain res' where r:
    "remapLoop palette d (map (\<lambda>k. 4 * k) ks) ?res = Inr res'" "length res' = length ?res"
    "\<forall>j. getPixel res' (4 * j) =
             (if j \<in> set ks then projr (remapPixel palette (getPixel d (4 * j))) else getPixel ?res (4 * j))"
    by blast
  have k: "k \<notin> set ks" "4 * k + 3 < length res" using Cons.prems by auto
  have "getPixel res' (4 * j) =
             (if j \<in> set (k # ks) then projr (remapPixel palette (getPixel d (4 * j))) else getPixel res (4 * j))" for j
  proof (cases "j = k")
    case True
    then show ?thesis using r(3) k c by (simp add: getPixel_setPixel_same)
  next
    case False
    then have "4 * k + 3 < 4 * j \<or> 4 * j + 3 < 4 * k" by arith
    then show ?thesis using r(3) False by (simp add: getPixel_setPixel_other)
  qed
  then show ?case using r(1,2) c by simp
qed

lemma pixels_eqI:
  assumes "length a = 4 * n" "length b = 4 * n" "\<forall>j<n. getPixel a (4 * j) = getPixel b (4 * j)"
  shows "a = b"
proof (rule nth_equalityI)
  show "length a = length b" using assms by simp
next
  fix i assume "i < length a"
  then have i: "i div 4 < n" using assms(1) by auto
  have e: "getPixel a (4 * (i div 4)) = getPixel b (4 * (i div 4))" using assms(3) i by blast
  have "i mod 4 = 0 \<or> i mod 4 = 1 \<or> i mod 4 = 2 \<or> i mod 4 = 3" by arith
  moreover have "i = 4 * (i div 4) + i mod 4" by simp
  ultimately have "i = 4 * (i div 4) \<or> i = 4 * (i div 4) + 1 \<or> i = 4 * (i div 4) + 2 \<or> i = 4 * (i div 4) + 3"
    by presburger
  then show "a ! i = b ! i" using e unfolding getPixel_def by (metis prod.inject)
qed

lemma remapColors_spec:
  assumes "palette \<noteq> []" "length (data img) = width img * height img * 4"
  shows "\<exists>out. remapColors img palette = Inr out \<and> width out = width img \<and> height out = height img
      \<and> length (data out) = width img * height img * 4
      \<and> (\<forall>j < width img * height img.
            getPixel (data out) (4 * j) = projr (remapPixel palette (getPixel (data img) (4 * j))))"
proof -
  let ?n = "width img * height img"
  have "distinct [0 ..< ?n]" "\<forall>k\<in>set [0 ..< ?n]. 4 * k + 3 < length (replicate (?n * 4) (0::int))"
    by auto
  from remapLoop_spec[OF assms(1) this, of "data img"] obtain res' where r:
    "remapLoop palette (data img) (map (\<lambda>k. 4 * k) [0 ..< ?n]) (replicate (?n * 4) 0) = Inr res'"
    "length res' = ?n * 4"
    "\<forall>j. getPixel res' (4 * j) =
             (if j \<in> set [0 ..< ?n] then projr (remapPixel palette (getPixel (data img) (4 * j)))
              else getPixel (replicate (?n * 4) 0) (4 * j))"
    by auto
  show ?thesis
    using r by (simp add: remapColors_def newImageData_def pixelStarts_def Let_def)
qed

lemma wellFormed_pixel:
  assumes "wellFormed img" "j < width img * height img"
  shows "validColor (getPixel (data img) (4 * j))"
proof -
  have "\<forall>i < length (data img). 0 \<le> data img ! i \<and> data img ! i \<le> 255"
    using assms(1) by (simp add: wellFormed_def list_all_length)
  moreover have "4 * j + 3 < length (data img)" using assms by (simp add: wellFormed_def)
  ultimately show ?thesis by (simp add: validColor_def getPixel_def)
qed

text \<open>
  C6: remapping without dithering is idempotent. For every well-formed buffer and every
  non-empty palette of colours (channels in \<open>0..255\<close>), \<^verbatim>\<open>remapColors\<close> returns a buffer,
  and remapping that buffer with the same palette returns it unchanged.
\<close>

theorem remapColors_idempotent:
  assumes "wellFormed imageData" and "palette \<noteq> []" and "list_all validColor palette"
  shows "\<exists>remapped. remapColors imageData palette = Inr remapped
                \<and> remapColors remapped palette = Inr remapped"
proof -
  let ?n = "width imageData * height imageData"
  have len: "length (data imageData) = ?n * 4" using assms(1) by (simp add: wellFormed_def)
  from remapColors_spec[OF assms(2) len] obtain out where o:
    "remapColors imageData palette = Inr out" "width out = width imageData" "height out = height imageData"
    "length (data out) = ?n * 4"
    "\<forall>j < ?n. getPixel (data out) (4 * j) = projr (remapPixel palette (getPixel (data imageData) (4 * j)))"
    by blast
  have len': "length (data out) = width out * height out * 4" using o by simp
  from remapColors_spec[OF assms(2) len'] obtain out' where o':
    "remapColors out palette = Inr out'" "width out' = width out" "height out' = height out"
    "length (data out') = ?n * 4"
    "\<forall>j < ?n. getPixel (data out') (4 * j) = projr (remapPixel palette (getPixel (data out) (4 * j)))"
    using o(2,3) by auto
  have "getPixel (data out') (4 * j) = getPixel (data out) (4 * j)" if "j < ?n" for j
  proof -
    obtain c' where c': "remapPixel palette (getPixel (data imageData) (4 * j)) = Inr c'"
      using remapPixel_total[OF assms(2)] by blast
    have "remapPixel palette c' = Inr c'"
      using remapPixel_idem[OF assms(2,3) wellFormed_pixel[OF assms(1) that] c'] .
    then show ?thesis using o(5) o'(5) that c' by simp
  qed
  then have "data out' = data out"
    using pixels_eqI[of "data out'" ?n "data out"] o(4) o'(4) by (simp add: mult.commute)
  then have "out' = out" using o'(2,3) by simp
  then show ?thesis using o(1) o'(1) by simp
qed

theorem remapColors_idempotent_witness:
  "wellFormed \<lparr>width = 2, height = 1, data = [10, 10, 10, 255, 200, 0, 0, 0]\<rparr>
   \<and> [(0, 0, 0, 255), (20, 20, 20, 255)] \<noteq> []
   \<and> list_all validColor [(0, 0, 0, 255), (20, 20, 20, 255)]
   \<and> (\<exists>remapped.
         remapColors \<lparr>width = 2, height = 1, data = [10, 10, 10, 255, 200, 0, 0, 0]\<rparr>
           [(0, 0, 0, 255), (20, 20, 20, 255)] = Inr remapped
       \<and> remapColors remapped [(0, 0, 0, 255), (20, 20, 20, 255)] = Inr remapped)"
proof -
  have w: "wellFormed \<lparr>width = 2, height = 1, data = [10, 10, 10, 255, 200, 0, 0, 0]\<rparr>"
    by (simp add: wellFormed_def)
  have n: "[(0, 0, 0, 255), (20, 20, 20, 255)] \<noteq> ([] :: RGBA list)" by simp
  have v: "list_all validColor [(0, 0, 0, 255), (20, 20, 20, 255)]" by (simp add: validColor_def)
  show ?thesis using remapColors_idempotent[OF w n v] w v by simp
qed

section \<open>Flood fill: properties\<close>

lemma finite_inBounds: "finite (inBounds w h)"
  by (simp add: inBounds_def)

subsection \<open>Properties of the fill\<close>

lemma inBounds_iff: "((x, y) \<in> inBounds w h) = isPixelInBounds w h x y"
  by (auto simp: inBounds_def isPixelInBounds_def)

lemma loop_bounds_iff: "(\<not> (x < 0 \<or> int w \<le> x \<or> y < 0 \<or> int h \<le> y)) = isPixelInBounds w h x y"
  by (auto simp: isPixelInBounds_def)

lemma length_floodLoop: "length (floodLoop w h target fill stack visited d) = length d"
  by (induction w h target fill stack visited d rule: floodLoop.induct)
     (simp, subst floodLoop.simps(2), simp)

lemma floodLoop_skip:
  assumes "(x, y) \<in> visited \<or> \<not> isPixelInBounds w h x y \<or> getPixel d (getPixelIndex w x y) \<noteq> target"
  shows "floodLoop w h target fill ((x, y) # stack) visited d = floodLoop w h target fill stack visited d"
  using assms by (subst floodLoop.simps(2)) (auto simp: loop_bounds_iff[symmetric])

lemma floodLoop_fill:
  assumes "(x, y) \<notin> visited" "isPixelInBounds w h x y" "getPixel d (getPixelIndex w x y) = target"
  shows "floodLoop w h target fill ((x, y) # stack) visited d =
         floodLoop w h target fill ((x, y - 1) # (x, y + 1) # (x - 1, y) # (x + 1, y) # stack)
           (insert (x, y) visited) (setPixel d (getPixelIndex w x y) fill)"
  using assms by (subst floodLoop.simps(2)) (auto simp: isPixelInBounds_def)

lemma floodLoop_pixel_cases:
  assumes "length d = w * h * 4" "isPixelInBounds w h px py"
  shows "getPixel (floodLoop w h target fill stack visited d) (getPixelIndex w px py) = getPixel d (getPixelIndex w px py)
       \<or> getPixel (floodLoop w h target fill stack visited d) (getPixelIndex w px py) = fill"
  using assms
proof (induction w h target fill stack visited d rule: floodLoop.induct)
  case (1 w h target fill visited d)
  then show ?case by simp
next
  case (2 w h target fill x y stack visited d)
  show ?case
  proof (cases "(x, y) \<in> visited \<or> \<not> isPixelInBounds w h x y \<or> getPixel d (getPixelIndex w x y) \<noteq> target")
    case True
    have "getPixel (floodLoop w h target fill stack visited d) (getPixelIndex w px py) = getPixel d (getPixelIndex w px py)
       \<or> getPixel (floodLoop w h target fill stack visited d) (getPixelIndex w px py) = fill"
    proof (cases "(x, y) \<in> visited")
      case True
      then show ?thesis using 2(1)[OF _ 2(5,6)] by simp
    next
      case nv: False
      show ?thesis
      proof (cases "isPixelInBounds w h x y")
        case False
        then have "x < 0 \<or> int w \<le> x \<or> y < 0 \<or> int h \<le> y" by (auto simp: isPixelInBounds_def)
        from 2(2)[OF nv this 2(5,6)] show ?thesis .
      next
        case inb: True
        then have b: "\<not> (x < 0 \<or> int w \<le> x \<or> y < 0 \<or> int h \<le> y)" by (auto simp: isPixelInBounds_def)
        have "getPixel d (getPixelIndex w x y) \<noteq> target" using True nv inb by simp
        from 2(3)[OF nv b this 2(5,6)] show ?thesis .
      qed
    qed
    then show ?thesis using floodLoop_skip[OF True] by simp
  next
    case False
    then have inb: "isPixelInBounds w h x y" and nv: "(x, y) \<notin> visited"
      and t: "getPixel d (getPixelIndex w x y) = target" by auto
    let ?d = "setPixel d (getPixelIndex w x y) fill"
    let ?r = "floodLoop w h target fill ((x, y - 1) # (x, y + 1) # (x - 1, y) # (x + 1, y) # stack) (insert (x, y) visited) ?d"
    have r: "floodLoop w h target fill ((x, y) # stack) visited d = ?r"
      using floodLoop_fill[OF nv inb t] .
    have "getPixel ?r (getPixelIndex w px py) = getPixel ?d (getPixelIndex w px py)
       \<or> getPixel ?r (getPixelIndex w px py) = fill"
    proof -
      have b: "\<not> (x < 0 \<or> int w \<le> x \<or> y < 0 \<or> int h \<le> y)" using inb by (auto simp: isPixelInBounds_def)
      have t': "\<not> getPixel d (getPixelIndex w x y) \<noteq> target" using t by simp
      have l: "length ?d = w * h * 4" using 2(5) by simp
      from 2(4)[OF nv b t' l 2(6)] show ?thesis .
    qed
    moreover have "getPixel ?d (getPixelIndex w px py) = (if (x, y) = (px, py) then fill else getPixel d (getPixelIndex w px py))"
    proof (cases "(x, y) = (px, py)")
      case True
      then show ?thesis using getPixelIndex_bound[OF inb] 2(5) by (simp add: getPixel_setPixel_same)
    next
      case False
      from getPixelIndex_sep[OF inb 2(6) False] show ?thesis using False
        by (auto simp: getPixel_setPixel_other)
    qed
    ultimately show ?thesis unfolding r by (auto split: if_splits)
  qed
qed

lemma alphaOf_hexToRgba: "alphaOf (hexToRgba color a) = a"
  by (simp add: hexToRgba_def alphaOf_def Let_def split: list.splits option.splits)

text \<open>
  C10: every pixel that flood fill changes is written with the fill colour
  \<^verbatim>\<open>hexToRgba(color)\<close>, whose alpha is 255: the fill takes no opacity, and a changed
  pixel is never transparent or semi-transparent.
\<close>

theorem floodFill_modified_pixel_opaque:
  assumes "length (data canvas) = width canvas * height canvas * 4"
    and "isPixelInBounds (width canvas) (height canvas) x y"
    and "getPixel (data (floodFill color startX startY canvas)) (getPixelIndex (width canvas) x y)
           \<noteq> getPixel (data canvas) (getPixelIndex (width canvas) x y)"
  shows "getPixel (data (floodFill color startX startY canvas)) (getPixelIndex (width canvas) x y)
           = hexToRgba color 255
       \<and> alphaOf (getPixel (data (floodFill color startX startY canvas)) (getPixelIndex (width canvas) x y)) = 255"
proof -
  let ?i = "getPixelIndex (width canvas) x y"
  let ?t = "getPixel (data canvas) (getPixelIndex (width canvas) startX startY)"
  have run: "data (floodFill color startX startY canvas)
      = floodLoop (width canvas) (height canvas) ?t (hexToRgba color 255) [(startX, startY)] {} (data canvas)"
    using assms(3) by (auto simp: floodFill_def Let_def split: if_splits)
  from floodLoop_pixel_cases[OF assms(1,2), of ?t "hexToRgba color 255" "[(startX, startY)]" "{}"]
  have "getPixel (data (floodFill color startX startY canvas)) ?i = hexToRgba color 255"
    using assms(3) unfolding run by blast
  then show ?thesis by (simp add: alphaOf_hexToRgba)
qed

lemma line_connected:
  fixes P :: "int \<Rightarrow> bool"
  assumes s: "P s" "lo \<le> s" "s < hi"
    and up: "\<And>i. P i \<Longrightarrow> lo \<le> i + 1 \<Longrightarrow> i + 1 < hi \<Longrightarrow> P (i + 1)"
    and down: "\<And>i. P i \<Longrightarrow> lo \<le> i - 1 \<Longrightarrow> i - 1 < hi \<Longrightarrow> P (i - 1)"
    and i: "lo \<le> i" "i < hi"
  shows "P i"
proof (cases "s \<le> i")
  case True
  then have "i < hi \<longrightarrow> P i"
  proof (induction i rule: int_ge_induct)
    case base
    then show ?case using s by simp
  next
    case (step j)
    then show ?case using up[of j] s(2) by auto
  qed
  then show ?thesis using i by simp
next
  case False
  then have "i \<le> s" by simp
  then have "lo \<le> i \<longrightarrow> P i"
  proof (induction i rule: int_le_induct)
    case base
    then show ?case using s by simp
  next
    case (step j)
    then show ?case using down[of j] s(3) by auto
  qed
  then show ?thesis using i by simp
qed

lemma grid_connected:
  assumes sub: "V \<subseteq> inBounds w h" and seed: "(sx, sy) \<in> V"
    and closed: "\<forall>p\<in>V. \<forall>n\<in>nbrs p. n \<in> inBounds w h \<longrightarrow> n \<in> V"
  shows "V = inBounds w h"
proof -
  have sb: "0 \<le> sx" "sx < int w" "0 \<le> sy" "sy < int h"
    using sub seed by (auto simp: inBounds_def)
  have row: "(x, sy) \<in> V" if "0 \<le> x" "x < int w" for x
  proof (rule line_connected[where P = "\<lambda>i. (i, sy) \<in> V" and s = sx and lo = 0 and hi = "int w"])
    show "(sx, sy) \<in> V" by (rule seed)
    show "0 \<le> sx" "sx < int w" using sb by auto
    show "0 \<le> x" "x < int w" using that by auto
  next
    fix i assume "(i, sy) \<in> V" "0 \<le> i + 1" "i + 1 < int w"
    then show "(i + 1, sy) \<in> V" using closed sb by (force simp: nbrs_def inBounds_def)
  next
    fix i assume "(i, sy) \<in> V" "0 \<le> i - 1" "i - 1 < int w"
    then show "(i - 1, sy) \<in> V" using closed sb by (force simp: nbrs_def inBounds_def)
  qed
  have all: "(x, y) \<in> V" if "0 \<le> x" "x < int w" "0 \<le> y" "y < int h" for x y
  proof (rule line_connected[where P = "\<lambda>j. (x, j) \<in> V" and s = sy and lo = 0 and hi = "int h"])
    show "(x, sy) \<in> V" using row that by simp
    show "0 \<le> sy" "sy < int h" using sb by auto
    show "0 \<le> y" "y < int h" using that by auto
  next
    fix j assume "(x, j) \<in> V" "0 \<le> j + 1" "j + 1 < int h"
    then show "(x, j + 1) \<in> V" using closed that by (force simp: nbrs_def inBounds_def)
  next
    fix j assume "(x, j) \<in> V" "0 \<le> j - 1" "j - 1 < int h"
    then show "(x, j - 1) \<in> V" using closed that by (force simp: nbrs_def inBounds_def)
  qed
  show ?thesis using sub all by (auto simp: inBounds_def)
qed

lemma floodLoop_uniform:
  assumes "length d = w * h * 4" "target \<noteq> fill"
    and "\<forall>x y. isPixelInBounds w h x y \<longrightarrow>
            getPixel d (getPixelIndex w x y) = (if (x, y) \<in> visited then fill else target)"
    and "visited \<subseteq> inBounds w h"
    and "\<forall>p\<in>visited. \<forall>n\<in>nbrs p. n \<in> inBounds w h \<longrightarrow> n \<in> visited \<or> n \<in> set stack"
    and "seed \<in> inBounds w h" "seed \<in> visited \<or> seed \<in> set stack"
  shows "\<forall>x y. isPixelInBounds w h x y \<longrightarrow>
            getPixel (floodLoop w h target fill stack visited d) (getPixelIndex w x y) = fill"
  using assms
proof (induction w h target fill stack visited d rule: floodLoop.induct)
  case (1 w h target fill visited d)
  obtain sx sy where s: "seed = (sx, sy)" by (cases seed) auto
  have "visited = inBounds w h"
    using grid_connected[OF "1.prems"(4), of sx sy] "1.prems"(5,7) s by auto
  then show ?case using "1.prems"(3) by (simp add: inBounds_iff)
next
  case (2 w h target fill x y stack visited d)
  note len = "2.prems"(1) and tf = "2.prems"(2) and col = "2.prems"(3) and sub = "2.prems"(4)
    and closed = "2.prems"(5) and seedb = "2.prems"(6) and seed = "2.prems"(7)
  show ?case
  proof (cases "(x, y) \<in> visited")
    case True
    have c: "\<forall>p\<in>visited. \<forall>n\<in>nbrs p. n \<in> inBounds w h \<longrightarrow> n \<in> visited \<or> n \<in> set stack"
      using closed True by auto
    have s: "seed \<in> visited \<or> seed \<in> set stack" using seed True by auto
    from "2.IH"(1)[OF True len tf col sub c seedb s] floodLoop_skip[of x y visited] True
    show ?thesis by simp
  next
    case nv: False
    show ?thesis
    proof (cases "isPixelInBounds w h x y")
      case False
      then have b: "x < 0 \<or> int w \<le> x \<or> y < 0 \<or> int h \<le> y" by (auto simp: isPixelInBounds_def)
      have ni: "(x, y) \<notin> inBounds w h" using False by (simp add: inBounds_iff)
      have c: "\<forall>p\<in>visited. \<forall>n\<in>nbrs p. n \<in> inBounds w h \<longrightarrow> n \<in> visited \<or> n \<in> set stack"
        using closed ni by auto
      have s: "seed \<in> visited \<or> seed \<in> set stack" using seed seedb ni by auto
      from "2.IH"(2)[OF nv b len tf col sub c seedb s] floodLoop_skip[of x y visited w h] False
      show ?thesis by simp
    next
      case inb: True
      then have b: "\<not> (x < 0 \<or> int w \<le> x \<or> y < 0 \<or> int h \<le> y)" by (auto simp: isPixelInBounds_def)
      have t: "getPixel d (getPixelIndex w x y) = target" using col inb nv by simp
      then have t': "\<not> getPixel d (getPixelIndex w x y) \<noteq> target" by simp
      let ?d = "setPixel d (getPixelIndex w x y) fill"
      let ?st = "(x, y - 1) # (x, y + 1) # (x - 1, y) # (x + 1, y) # stack"
      let ?vis = "insert (x, y) visited"
      have l: "length ?d = w * h * 4" using len by simp
      have col': "\<forall>px py. isPixelInBounds w h px py \<longrightarrow>
            getPixel ?d (getPixelIndex w px py) = (if (px, py) \<in> ?vis then fill else target)"
      proof (intro allI impI)
        fix px py assume pb: "isPixelInBounds w h px py"
        show "getPixel ?d (getPixelIndex w px py) = (if (px, py) \<in> ?vis then fill else target)"
        proof (cases "(x, y) = (px, py)")
          case True
          then show ?thesis using getPixelIndex_bound[OF inb] len by (auto simp: getPixel_setPixel_same)
        next
          case False
          from getPixelIndex_sep[OF inb pb False] show ?thesis using False col pb
            by (auto simp: getPixel_setPixel_other)
        qed
      qed
      have sub': "?vis \<subseteq> inBounds w h" using sub inb by (simp add: inBounds_iff)
      have c: "\<forall>p\<in>?vis. \<forall>n\<in>nbrs p. n \<in> inBounds w h \<longrightarrow> n \<in> ?vis \<or> n \<in> set ?st"
      proof (intro ballI impI)
        fix p n assume p: "p \<in> ?vis" and n: "n \<in> nbrs p" "n \<in> inBounds w h"
        show "n \<in> ?vis \<or> n \<in> set ?st"
        proof (cases "p = (x, y)")
          case True
          then show ?thesis using n(1) by (auto simp: nbrs_def)
        next
          case False
          then have "p \<in> visited" using p by simp
          then have "n \<in> visited \<or> n \<in> set ((x, y) # stack)" using closed n by blast
          then show ?thesis by auto
        qed
      qed
      have s: "seed \<in> ?vis \<or> seed \<in> set ?st" using seed by auto
      from "2.IH"(4)[OF nv b t' l tf col' sub' c seedb s] floodLoop_fill[OF nv inb t]
      show ?thesis by simp
    qed
  qed
qed

lemma length_pixelBytes [simp]: "length (pixelBytes c) = 4"
  by (simp add: pixelBytes_def split: prod.splits)

lemma length_uniformData [simp]: "length (uniformData n c) = 4 * n"
  by (induction n) (simp_all add: uniformData_def)

lemma getPixel_uniformData: "j < n \<Longrightarrow> getPixel (uniformData n c) (4 * j) = c"
proof (induction n arbitrary: j)
  case 0
  then show ?case by simp
next
  case (Suc n)
  have u: "uniformData (Suc n) c = pixelBytes c @ uniformData n c" by (simp add: uniformData_def)
  show ?case
  proof (cases j)
    case 0
    then show ?thesis unfolding u by (cases c) (simp add: getPixel_def pixelBytes_def)
  next
    case (Suc k)
    then have "k < n" using Suc.prems by simp
    from Suc.IH[OF this] show ?thesis unfolding u Suc
      by (simp add: getPixel_def nth_append add.commute)
  qed
qed

lemma cell_of_index:
  assumes "j < w * h"
  shows "isPixelInBounds w h (int (j mod w)) (int (j div w))"
    "getPixelIndex w (int (j mod w)) (int (j div w)) = 4 * j"
proof -
  have w: "0 < w" using assms by (cases w) auto
  have "j div w < h" using assms by (simp add: less_mult_imp_div_less mult.commute)
  then show b: "isPixelInBounds w h (int (j mod w)) (int (j div w))"
    using w by (simp add: isPixelInBounds_def)
  show "getPixelIndex w (int (j mod w)) (int (j div w)) = 4 * j"
    using getPixelIndex_nat(1)[OF b] by simp
qed

text \<open>
  C7: on a buffer whose pixels all hold one colour \<open>c\<close>, flood fill from any in-bounds
  seed with a fill colour other than \<open>c\<close> returns (the loop is a total function) the
  buffer with all \<open>width * height\<close> pixels recoloured; the witness is the 8 by 8 white
  buffer filled with black from the corner \<open>(0, 0)\<close>.
\<close>

theorem floodFill_uniform_buffer:
  assumes "data canvas = uniformData (width canvas * height canvas) c"
    and "isPixelInBounds (width canvas) (height canvas) startX startY"
    and "hexToRgba color 255 \<noteq> c"
  shows "floodFill color startX startY canvas =
           canvas\<lparr>data := uniformData (width canvas * height canvas) (hexToRgba color 255)\<rparr>"
proof -
  let ?w = "width canvas" and ?h = "height canvas" and ?fill = "hexToRgba color 255"
  let ?n = "?w * ?h"
  have len: "length (data canvas) = ?w * ?h * 4" using assms(1) by simp
  have px: "getPixel (data canvas) (getPixelIndex ?w x y) = c" if "isPixelInBounds ?w ?h x y" for x y
  proof -
    have k: "nat y * ?w + nat x < ?n"
      using getPixelIndex_nat(2,3)[OF that] cell_bound by blast
    show ?thesis unfolding getPixelIndex_nat(1)[OF that] assms(1)
      by (rule getPixel_uniformData[OF k])
  qed
  let ?res = "floodLoop ?w ?h c ?fill [(startX, startY)] {} (data canvas)"
  have run: "floodFill color startX startY canvas = canvas\<lparr>data := ?res\<rparr>"
    using assms(2,3) px[OF assms(2)] by (simp add: floodFill_def Let_def)
  have "\<forall>x y. isPixelInBounds ?w ?h x y \<longrightarrow> getPixel ?res (getPixelIndex ?w x y) = ?fill"
  proof (rule floodLoop_uniform[where seed = "(startX, startY)"])
    show "length (data canvas) = ?w * ?h * 4" by (rule len)
    show "c \<noteq> ?fill" using assms(3) by simp
    show "\<forall>x y. isPixelInBounds ?w ?h x y \<longrightarrow>
            getPixel (data canvas) (getPixelIndex ?w x y) = (if (x, y) \<in> {} then ?fill else c)"
      using px by simp
    show "{} \<subseteq> inBounds ?w ?h" by simp
    show "\<forall>p\<in>{}. \<forall>n\<in>nbrs p. n \<in> inBounds ?w ?h \<longrightarrow> n \<in> {} \<or> n \<in> set [(startX, startY)]" by simp
    show "(startX, startY) \<in> inBounds ?w ?h" using assms(2) by (simp add: inBounds_iff)
    show "(startX, startY) \<in> {} \<or> (startX, startY) \<in> set [(startX, startY)]" by simp
  qed
  then have "\<forall>j < ?n. getPixel ?res (4 * j) = getPixel (uniformData ?n ?fill) (4 * j)"
    using cell_of_index[of _ ?w ?h] by (metis getPixel_uniformData)
  then have "?res = uniformData ?n ?fill"
    using pixels_eqI[of ?res ?n "uniformData ?n ?fill"] len by (simp add: length_floodLoop mult.commute)
  then show ?thesis using run by simp
qed

theorem floodFill_uniform_buffer_witness:
  "floodFill ''#000000'' 0 0 \<lparr>width = 8, height = 8, data = uniformData (8 * 8) (255, 255, 255, 255)\<rparr>
     = \<lparr>width = 8, height = 8, data = uniformData (8 * 8) (0, 0, 0, 255)\<rparr>"
proof -
  let ?cv = "\<lparr>width = 8, height = 8, data = uniformData (8 * 8) (255, 255, 255, 255)\<rparr>"
  have d: "data ?cv = uniformData (width ?cv * height ?cv) (255, 255, 255, 255)" by simp
  have b: "isPixelInBounds (width ?cv) (height ?cv) 0 0" by (simp add: isPixelInBounds_def)
  have f: "hexToRgba ''#000000'' 255 = (0, 0, 0, 255)" by code_simp
  have n: "hexToRgba ''#000000'' 255 \<noteq> (255, 255, 255, 255)" unfolding f by simp
  show ?thesis using floodFill_uniform_buffer[OF d b n] by (simp add: f)
qed

theorem floodFill_modified_pixel_opaque_witness:
  "getPixel (data (floodFill ''#102030'' 1 0
       \<lparr>width = 3, height = 2, data = [1,1,1,77, 1,1,1,77, 9,9,9,9, 9,9,9,9, 1,1,1,77, 1,1,1,77]\<rparr>))
     (getPixelIndex 3 2 1) = (16, 32, 48, 255)
   \<and> alphaOf (getPixel (data (floodFill ''#102030'' 1 0
       \<lparr>width = 3, height = 2, data = [1,1,1,77, 1,1,1,77, 9,9,9,9, 9,9,9,9, 1,1,1,77, 1,1,1,77]\<rparr>))
     (getPixelIndex 3 2 1)) = 255"
proof -
  let ?cv = "\<lparr>width = 3, height = 2, data = [1,1,1,77, 1,1,1,77, 9,9,9,9, 9,9,9,9, 1,1,1,77, 1,1,1,77]\<rparr>"
  have l: "length (data ?cv) = width ?cv * height ?cv * 4" by simp
  have b: "isPixelInBounds (width ?cv) (height ?cv) 2 1" by (simp add: isPixelInBounds_def)
  have m: "getPixel (data (floodFill ''#102030'' 1 0 ?cv)) (getPixelIndex (width ?cv) 2 1)
           \<noteq> getPixel (data ?cv) (getPixelIndex (width ?cv) 2 1)"
    by code_simp
  have f: "hexToRgba ''#102030'' 255 = (16, 32, 48, 255)" by code_simp
  show ?thesis using floodFill_modified_pixel_opaque[OF l b m] by (simp add: f alphaOf_def)
qed

section \<open>Line rasterisation: properties\<close>

subsection \<open>The path of the line\<close>

lemma lineLoop_done:
  "lineLoop stamp x1 y1 dx dy sx sy err x1 y1 s = Some (stamp x1 y1 s)"
  by (subst lineLoop.simps) simp

lemma lineLoop_step:
  assumes "\<not> (cx = x1 \<and> cy = y1)"
  shows "lineLoop stamp x1 y1 dx dy sx sy err cx cy s =
         lineLoop stamp x1 y1 dx dy sx sy
           ((if 2 * err < dx then (if 2 * err > - dy then err - dy else err) + dx
             else (if 2 * err > - dy then err - dy else err)))
           (if 2 * err > - dy then cx + sx else cx)
           (if 2 * err < dx then cy + sy else cy)
           (stamp cx cy s)"
  using assms by (subst lineLoop.simps) (auto simp: Let_def)

lemma lineLoop_run:
  fixes stamp :: "int \<Rightarrow> int \<Rightarrow> 's \<Rightarrow> 's"
  assumes d: "0 \<le> dx" "0 \<le> dy" and sg: "sx = 1 \<or> sx = - 1" "sy = 1 \<or> sy = - 1"
  shows "0 \<le> a \<Longrightarrow> a \<le> dx \<Longrightarrow> 0 \<le> b \<Longrightarrow> b \<le> dy \<Longrightarrow> cx = x1 - sx * a \<Longrightarrow> cy = y1 - sy * b
     \<Longrightarrow> err = dx - dy + a * dy - b * dx
     \<Longrightarrow> \<exists>pts. (\<forall>acc. lineLoop (\<lambda>x y ps. ps @ [(x, y)]) x1 y1 dx dy sx sy err cx cy acc = Some (acc @ pts))
            \<and> (\<forall>s. lineLoop stamp x1 y1 dx dy sx sy err cx cy s = Some (foldl (\<lambda>s p. stamp (fst p) (snd p) s) s pts))
            \<and> pts \<noteq> [] \<and> hd pts = (cx, cy) \<and> last pts = (x1, y1) \<and> successively adjacent8 pts"
proof (induction "nat (a + b)" arbitrary: a b cx cy err rule: less_induct)
  case less
  note a = less.prems(1,2) and b = less.prems(3,4) and c = less.prems(5,6) and e = less.prems(7)
  show ?case
  proof (cases "a = 0 \<and> b = 0")
    case True
    then have "cx = x1" "cy = y1" using c by auto
    then show ?thesis
      by (intro exI[of _ "[(x1, y1)]"]) (simp add: lineLoop_done)
  next
    case False
    define xs where "xs = (2 * err > - dy)"
    define ys where "ys = (2 * err < dx)"
    have xa: "1 \<le> a" if xs
    proof (rule ccontr)
      assume "\<not> 1 \<le> a"
      then have a0: "a = 0" using a by simp
      then have "1 \<le> b" using False b by simp
      then have "dx \<le> b * dx" using d(1) mult_right_mono[of 1 b dx] by simp
      then have "err \<le> - dy" using e a0 by simp
      then show False using that d(2) unfolding xs_def by simp
    qed
    have yb: "1 \<le> b" if ys
    proof (rule ccontr)
      assume "\<not> 1 \<le> b"
      then have b0: "b = 0" using b by simp
      then have "1 \<le> a" using False a by simp
      then have "dy \<le> a * dy" using d(2) mult_right_mono[of 1 a dy] by simp
      then have "dx \<le> err" using e b0 by simp
      then show False using that d(1) unfolding ys_def by simp
    qed
    have some: "xs \<or> ys"
    proof (rule ccontr)
      assume "\<not> (xs \<or> ys)"
      then have "dx \<le> - dy" unfolding xs_def ys_def by simp
      then have "dx = 0" "dy = 0" using d by auto
      then show False using False a b by simp
    qed
    define a' where "a' = (if xs then a - 1 else a)"
    define b' where "b' = (if ys then b - 1 else b)"
    define cx' where "cx' = (if xs then cx + sx else cx)"
    define cy' where "cy' = (if ys then cy + sy else cy)"
    define err' where "err' = (if ys then (if xs then err - dy else err) + dx else (if xs then err - dy else err))"
    have m: "nat (a' + b') < nat (a + b)"
      using some xa yb a b unfolding a'_def b'_def by auto
    have a': "0 \<le> a'" "a' \<le> dx" using xa a unfolding a'_def by auto
    have b': "0 \<le> b'" "b' \<le> dy" using yb b unfolding b'_def by auto
    have c': "cx' = x1 - sx * a'" "cy' = y1 - sy * b'"
      using c unfolding cx'_def cy'_def a'_def b'_def by (auto simp: algebra_simps)
    have e': "err' = dx - dy + a' * dy - b' * dx"
      using e unfolding err'_def a'_def b'_def by (auto simp: algebra_simps)
    from less.hyps[OF m a' b' c' e'] obtain pts where pts:
      "\<forall>acc. lineLoop (\<lambda>x y ps. ps @ [(x, y)]) x1 y1 dx dy sx sy err' cx' cy' acc = Some (acc @ pts)"
      "\<forall>s. lineLoop stamp x1 y1 dx dy sx sy err' cx' cy' s = Some (foldl (\<lambda>s p. stamp (fst p) (snd p) s) s pts)"
      "pts \<noteq> []" "hd pts = (cx', cy')" "last pts = (x1, y1)" "successively adjacent8 pts"
      by blast
    have ne: "\<not> (cx = x1 \<and> cy = y1)"
      using False c sg by auto
    have adj: "adjacent8 (cx, cy) (cx', cy')"
      using some sg unfolding adjacent8_def cx'_def cy'_def by auto
    have st: "lineLoop f x1 y1 dx dy sx sy err cx cy s = lineLoop f x1 y1 dx dy sx sy err' cx' cy' (f cx cy s)" for f :: "int \<Rightarrow> int \<Rightarrow> 't \<Rightarrow> 't" and s
      using lineLoop_step[OF ne, of f dx dy sx sy err s]
      unfolding err'_def cx'_def cy'_def xs_def ys_def by simp
    show ?thesis
    proof (intro exI[of _ "(cx, cy) # pts"] conjI allI)
      fix acc
      show "lineLoop (\<lambda>x y ps. ps @ [(x, y)]) x1 y1 dx dy sx sy err cx cy acc = Some (acc @ (cx, cy) # pts)"
        using pts(1) by (simp add: st)
    next
      fix s
      show "lineLoop stamp x1 y1 dx dy sx sy err cx cy s = Some (foldl (\<lambda>s p. stamp (fst p) (snd p) s) s ((cx, cy) # pts))"
        using pts(2) by (simp add: st)
    next
      show "(cx, cy) # pts \<noteq> []" by simp
      show "hd ((cx, cy) # pts) = (cx, cy)" by simp
      show "last ((cx, cy) # pts) = (x1, y1)" using pts(3,5) by simp
      show "successively adjacent8 ((cx, cy) # pts)"
        using pts(3,4,6) adj by (simp add: successively_Cons)
    qed
  qed
qed

lemma lineFrom_run:
  fixes stamp :: "int \<Rightarrow> int \<Rightarrow> 's \<Rightarrow> 's"
  shows "\<exists>pts. linePoints x0 y0 x1 y1 = Some pts
            \<and> (\<forall>s. lineFrom stamp x0 y0 x1 y1 s = Some (foldl (\<lambda>s p. stamp (fst p) (snd p) s) s pts))
            \<and> pts \<noteq> [] \<and> hd pts = (x0, y0) \<and> last pts = (x1, y1) \<and> successively adjacent8 pts"
proof -
  let ?dx = "\<bar>x1 - x0\<bar>" and ?dy = "\<bar>y1 - y0\<bar>"
  let ?sx = "if x0 < x1 then 1 else - 1 :: int" and ?sy = "if y0 < y1 then 1 else - 1 :: int"
  have "\<exists>pts. (\<forall>acc. lineLoop (\<lambda>x y ps. ps @ [(x, y)]) x1 y1 ?dx ?dy ?sx ?sy (?dx - ?dy) x0 y0 acc = Some (acc @ pts))
            \<and> (\<forall>s. lineLoop stamp x1 y1 ?dx ?dy ?sx ?sy (?dx - ?dy) x0 y0 s = Some (foldl (\<lambda>s p. stamp (fst p) (snd p) s) s pts))
            \<and> pts \<noteq> [] \<and> hd pts = (x0, y0) \<and> last pts = (x1, y1) \<and> successively adjacent8 pts"
  proof (rule lineLoop_run[where a = ?dx and b = ?dy])
    show "x0 = x1 - ?sx * ?dx" by auto
    show "y0 = y1 - ?sy * ?dy" by auto
    show "?dx - ?dy = ?dx - ?dy + ?dx * ?dy - ?dy * ?dx" by simp
  qed auto
  then obtain pts where pts:
    "\<forall>acc. lineLoop (\<lambda>x y ps. ps @ [(x, y)]) x1 y1 ?dx ?dy ?sx ?sy (?dx - ?dy) x0 y0 acc = Some (acc @ pts)"
    "\<forall>s. lineLoop stamp x1 y1 ?dx ?dy ?sx ?sy (?dx - ?dy) x0 y0 s = Some (foldl (\<lambda>s p. stamp (fst p) (snd p) s) s pts)"
    "pts \<noteq> []" "hd pts = (x0, y0)" "last pts = (x1, y1)" "successively adjacent8 pts"
    by blast
  have "linePoints x0 y0 x1 y1 = Some pts"
    using pts(1)[rule_format, of "[]"] by (simp add: linePoints_def lineFrom_def Let_def)
  moreover have "\<forall>s. lineFrom stamp x0 y0 x1 y1 s = Some (foldl (\<lambda>s p. stamp (fst p) (snd p) s) s pts)"
    using pts(2) by (simp add: lineFrom_def Let_def)
  ultimately show ?thesis using pts(3-6) by blast
qed

lemma drawBrush_one_pixel:
  assumes "length (data canvas) = width canvas * height canvas * 4"
    and "isPixelInBounds (width canvas) (height canvas) x y"
    and "w = width canvas"
  shows "getPixel (data (drawBrush ctx 1 color opacity cx cy False canvas)) (getPixelIndex w x y) =
     (if x = cx \<and> y = cy
      then fillPixel ctx (brushPaint color opacity) (getPixel (data canvas) (getPixelIndex w x y))
      else getPixel (data canvas) (getPixelIndex w x y))"
  using drawBrush_pixel[OF assms(1,2), of ctx 1 color opacity cx cy False] assms(3)
  by (auto simp: set_brushOffsets)

lemma linePoints_0030: "linePoints 0 0 3 0 = Some [(0, 0), (1, 0), (2, 0), (3, 0)]"
  by code_simp

text \<open>
  C8: for every pair of integer endpoints the loop of \<^verbatim>\<open>drawLineOnContext\<close> returns, and the
  centres it stamps form a sequence that starts at \<open>(x0, y0)\<close>, ends at \<open>(x1, y1)\<close> and in
  which every two consecutive points are 8-adjacent; the drawn canvas is that sequence of
  stamps. In particular the line from \<open>(0, 0)\<close> to \<open>(3, 0)\<close> with a brush of size 1 fills
  exactly the pixels \<open>(0, 0), (1, 0), (2, 0), (3, 0)\<close> and leaves every other pixel as it was.
\<close>

theorem drawLine_path:
  "(\<exists>pts. linePoints x0 y0 x1 y1 = Some pts \<and> successively adjacent8 pts
          \<and> (x0, y0) \<in> set pts \<and> (x1, y1) \<in> set pts \<and> hd pts = (x0, y0) \<and> last pts = (x1, y1)
          \<and> drawLineOnContext ctx brushSize color opacity x0 y0 x1 y1 isEraser canvas =
              Some (foldl (\<lambda>cv p. drawBrush ctx brushSize color opacity (fst p) (snd p) isEraser cv) canvas pts))
   \<and> (length (data canvas) = width canvas * height canvas * 4 \<and> isPixelInBounds (width canvas) (height canvas) x y
        \<longrightarrow> (\<exists>drawn. drawLineOnContext ctx 1 color opacity 0 0 3 0 False canvas = Some drawn
               \<and> getPixel (data drawn) (getPixelIndex (width canvas) x y) =
                   (if (x, y) \<in> {(0, 0), (1, 0), (2, 0), (3, 0)}
                    then fillPixel ctx (brushPaint color opacity) (getPixel (data canvas) (getPixelIndex (width canvas) x y))
                    else getPixel (data canvas) (getPixelIndex (width canvas) x y))))"
proof (intro conjI impI)
  obtain pts where pts: "linePoints x0 y0 x1 y1 = Some pts"
    "\<forall>s. lineFrom (\<lambda>cx cy. drawBrush ctx brushSize color opacity cx cy isEraser) x0 y0 x1 y1 s
         = Some (foldl (\<lambda>s p. drawBrush ctx brushSize color opacity (fst p) (snd p) isEraser s) s pts)"
    "pts \<noteq> []" "hd pts = (x0, y0)" "last pts = (x1, y1)" "successively adjacent8 pts"
    using lineFrom_run[of x0 y0 x1 y1 "\<lambda>cx cy. drawBrush ctx brushSize color opacity cx cy isEraser"] by blast
  have "(x0, y0) \<in> set pts" "(x1, y1) \<in> set pts"
    using pts(3,4,5) hd_in_set[of pts] last_in_set[of pts] by auto
  then show "\<exists>pts. linePoints x0 y0 x1 y1 = Some pts \<and> successively adjacent8 pts
          \<and> (x0, y0) \<in> set pts \<and> (x1, y1) \<in> set pts \<and> hd pts = (x0, y0) \<and> last pts = (x1, y1)
          \<and> drawLineOnContext ctx brushSize color opacity x0 y0 x1 y1 isEraser canvas =
              Some (foldl (\<lambda>cv p. drawBrush ctx brushSize color opacity (fst p) (snd p) isEraser cv) canvas pts)"
    using pts by (intro exI[of _ pts]) (simp add: drawLineOnContext_def)
next
  assume a: "length (data canvas) = width canvas * height canvas * 4 \<and> isPixelInBounds (width canvas) (height canvas) x y"
  obtain pts where pts: "linePoints 0 0 3 0 = Some pts"
    "\<forall>s. lineFrom (\<lambda>cx cy. drawBrush ctx 1 color opacity cx cy False) 0 0 3 0 s
         = Some (foldl (\<lambda>s p. drawBrush ctx 1 color opacity (fst p) (snd p) False s) s pts)"
    using lineFrom_run[of 0 0 3 0 "\<lambda>cx cy. drawBrush ctx 1 color opacity cx cy False"] by blast
  have p: "pts = [(0, 0), (1, 0), (2, 0), (3, 0)]" using pts(1) linePoints_0030 by simp
  let ?drawn = "foldl (\<lambda>s p. drawBrush ctx 1 color opacity (fst p) (snd p) False s) canvas [(0, 0), (1, 0), (2, 0), (3, 0)]"
  have r: "drawLineOnContext ctx 1 color opacity 0 0 3 0 False canvas = Some ?drawn"
    using pts(2) p by (simp add: drawLineOnContext_def)
  have "getPixel (data ?drawn) (getPixelIndex (width canvas) x y) =
                   (if (x, y) \<in> {(0, 0), (1, 0), (2, 0), (3, 0)}
                    then fillPixel ctx (brushPaint color opacity) (getPixel (data canvas) (getPixelIndex (width canvas) x y))
                    else getPixel (data canvas) (getPixelIndex (width canvas) x y))"
  proof -
    let ?c1 = "drawBrush ctx 1 color opacity 0 0 False canvas"
    let ?c2 = "drawBrush ctx 1 color opacity 1 0 False ?c1"
    let ?c3 = "drawBrush ctx 1 color opacity 2 0 False ?c2"
    let ?c4 = "drawBrush ctx 1 color opacity 3 0 False ?c3"
    let ?i = "getPixelIndex (width canvas) x y"
    let ?F = "fillPixel ctx (brushPaint color opacity)"
    have s1: "getPixel (data ?c1) ?i = (if x = 0 \<and> y = 0 then ?F (getPixel (data canvas) ?i) else getPixel (data canvas) ?i)"
      using a by (intro drawBrush_one_pixel) simp_all
    have s2: "getPixel (data ?c2) ?i = (if x = 1 \<and> y = 0 then ?F (getPixel (data ?c1) ?i) else getPixel (data ?c1) ?i)"
      using a by (intro drawBrush_one_pixel) simp_all
    have s3: "getPixel (data ?c3) ?i = (if x = 2 \<and> y = 0 then ?F (getPixel (data ?c2) ?i) else getPixel (data ?c2) ?i)"
      using a by (intro drawBrush_one_pixel) simp_all
    have s4: "getPixel (data ?c4) ?i = (if x = 3 \<and> y = 0 then ?F (getPixel (data ?c3) ?i) else getPixel (data ?c3) ?i)"
      using a by (intro drawBrush_one_pixel) simp_all
    have "?drawn = ?c4" by simp
    then show ?thesis using s1 s2 s3 s4 by auto
  qed
  then show "\<exists>drawn. drawLineOnContext ctx 1 color opacity 0 0 3 0 False canvas = Some drawn
               \<and> getPixel (data drawn) (getPixelIndex (width canvas) x y) =
                   (if (x, y) \<in> {(0, 0), (1, 0), (2, 0), (3, 0)}
                    then fillPixel ctx (brushPaint color opacity) (getPixel (data canvas) (getPixelIndex (width canvas) x y))
                    else getPixel (data canvas) (getPixelIndex (width canvas) x y))"
    using r by blast
qed

theorem drawLine_path_witness:
  "(\<exists>pts. linePoints 5 1 0 3 = Some pts \<and> successively adjacent8 pts
          \<and> (5, 1) \<in> set pts \<and> (0, 3) \<in> set pts \<and> hd pts = (5, 1) \<and> last pts = (0, 3))
   \<and> (\<exists>drawn. drawLineOnContext overwriteContext 1 ''#ff0000'' 1 0 0 3 0 False
                  \<lparr>width = 5, height = 1, data = replicate 20 7\<rparr> = Some drawn
            \<and> getPixel (data drawn) (getPixelIndex 5 2 0) = (255, 0, 0, 255)
            \<and> getPixel (data drawn) (getPixelIndex 5 4 0) = (7, 7, 7, 7))"
proof -
  let ?cv = "\<lparr>width = 5, height = 1, data = replicate 20 7\<rparr>"
  have p: "brushPaint ''#ff0000'' 1 = (255, 0, 0, 255)" by code_simp
  have g: "getPixel (replicate 20 7) (getPixelIndex 5 2 0) = (7, 7, 7, 7)"
    "getPixel (replicate 20 7) (getPixelIndex 5 4 0) = (7, 7, 7, 7)"
    by (simp_all add: getPixel_def getPixelIndex_def)
  have l: "length (data ?cv) = width ?cv * height ?cv * 4"
    and b2: "isPixelInBounds (width ?cv) (height ?cv) 2 0" and b4: "isPixelInBounds (width ?cv) (height ?cv) 4 0"
    by (simp_all add: isPixelInBounds_def)
  from drawLine_path[where ?x0.0 = 5 and ?y0.0 = 1 and ?x1.0 = 0 and ?y1.0 = 3 and ctx = overwriteContext
      and brushSize = 1 and color = "''#ff0000''" and opacity = 1 and isEraser = False and canvas = ?cv
      and x = 2 and y = 0]
  have A: "\<exists>pts. linePoints 5 1 0 3 = Some pts \<and> successively adjacent8 pts
          \<and> (5, 1) \<in> set pts \<and> (0, 3) \<in> set pts \<and> hd pts = (5, 1) \<and> last pts = (0, 3)"
    and B: "\<exists>drawn. drawLineOnContext overwriteContext 1 ''#ff0000'' 1 0 0 3 0 False ?cv = Some drawn
            \<and> getPixel (data drawn) (getPixelIndex 5 2 0) = (255, 0, 0, 255)"
    using l b2 by (auto simp: p g overwriteContext_def)
  from drawLine_path[where ?x0.0 = 5 and ?y0.0 = 1 and ?x1.0 = 0 and ?y1.0 = 3 and ctx = overwriteContext
      and brushSize = 1 and color = "''#ff0000''" and opacity = 1 and isEraser = False and canvas = ?cv
      and x = 4 and y = 0]
  have C: "\<exists>drawn. drawLineOnContext overwriteContext 1 ''#ff0000'' 1 0 0 3 0 False ?cv = Some drawn
            \<and> getPixel (data drawn) (getPixelIndex 5 4 0) = (7, 7, 7, 7)"
    using l b4 by (auto simp: p g overwriteContext_def)
  from B C have "\<exists>drawn. drawLineOnContext overwriteContext 1 ''#ff0000'' 1 0 0 3 0 False ?cv = Some drawn
            \<and> getPixel (data drawn) (getPixelIndex 5 2 0) = (255, 0, 0, 255)
            \<and> getPixel (data drawn) (getPixelIndex 5 4 0) = (7, 7, 7, 7)"
    by auto
  then show ?thesis using A by blast
qed

section \<open>Floyd-Steinberg dithering: properties\<close>

subsection \<open>Error diffusion of one step\<close>

lemma cell_eq:
  "(x1::nat) < w \<Longrightarrow> x2 < w \<Longrightarrow> (y1 * w + x1 = y2 * w + x2) = (x1 = x2 \<and> y1 = y2)"
  using cell_inj[of x1 w x2 y1 y2] by auto

lemma length_addError [simp]: "length (addError fl pixels i e k) = length pixels"
  by (simp add: addError_def split: prod.splits)

lemma nth_addError:
  "i < length pixels \<Longrightarrow>
     addError fl pixels i e k ! j = (if j = i then withShare fl (pixels ! i) e k else pixels ! j)"
  by (auto simp: addError_def withShare_def split: prod.splits)

lemma fsWeight_cases:
  "fsWeight (int x' - int x) (int y' - int y) =
     (if x' = x + 1 \<and> y' = y then 7
      else if x' + 1 = x \<and> y' = y + 1 then 3
      else if x' = x \<and> y' = y + 1 then 5
      else if x' = x + 1 \<and> y' = y + 1 then 1
      else 0)"
  unfolding fsWeight_def by (auto simp: algebra_simps)

lemma fsStep_shares:
  assumes ne: "palette \<noteq> []" and xw: "x < w" and yh: "y < h" and len: "length pixels = w * h"
    and old: "pixels ! (y * w + x) = (r, g, b, a)" and op: "a \<noteq> 0"
  shows "\<exists>chosen pixels' res'.
           findNearestColor (clampRound r, clampRound g, clampRound b, a) palette = Some chosen
         \<and> fsStep fl w h palette (pixels, res) (x, y) = Inr (pixels', res')
         \<and> length pixels' = length pixels
         \<and> (\<forall>x' y'. x' < w \<and> y' < h \<longrightarrow>
               pixels' ! (y' * w + x') =
                 (if fsWeight (int x' - int x) (int y' - int y) = 0 then pixels ! (y' * w + x')
                  else withShare fl (pixels ! (y' * w + x')) (quantError fl (r, g, b, a) chosen)
                         (fsWeight (int x' - int x) (int y' - int y))))"
proof -
  obtain chosen where ch: "findNearestColor (clampRound r, clampRound g, clampRound b, a) palette = Some chosen"
    using findNearestColor_min[OF ne] by blast
  define e where "e = quantError fl (r, g, b, a) chosen"
  define pixels1 where "pixels1 = (if x + 1 < w then addError fl pixels (y * w + (x + 1)) e 7 else pixels)"
  define pixels2 where "pixels2 = (if y + 1 < h \<and> 1 \<le> x then addError fl pixels1 ((y + 1) * w + (x - 1)) e 3 else pixels1)"
  define pixels3 where "pixels3 = (if y + 1 < h then addError fl pixels2 ((y + 1) * w + x) e 5 else pixels2)"
  define pixels4 where "pixels4 = (if y + 1 < h \<and> x + 1 < w then addError fl pixels3 ((y + 1) * w + (x + 1)) e 1 else pixels3)"
  have i2: "1 \<le> x \<Longrightarrow> (y + 1) * w + x - 1 = (y + 1) * w + (x - 1)" by simp
  obtain res' where step: "fsStep fl w h palette (pixels, res) (x, y) = Inr (pixels4, res')"
    using ch old op i2
    unfolding fsStep_def pixels4_def pixels3_def pixels2_def pixels1_def e_def
    by (cases chosen) (simp add: Let_def add.assoc)
  have l: "length pixels1 = w * h" "length pixels2 = w * h" "length pixels3 = w * h" "length pixels4 = w * h"
    using len unfolding pixels4_def pixels3_def pixels2_def pixels1_def by simp_all
  have share: "pixels4 ! (y' * w + x') =
      (if fsWeight (int x' - int x) (int y' - int y) = 0 then pixels ! (y' * w + x')
       else withShare fl (pixels ! (y' * w + x')) e (fsWeight (int x' - int x) (int y' - int y)))"
    if b: "x' < w" "y' < h" for x' y'
  proof -
    have in1: "x + 1 < w \<Longrightarrow> y * w + (x + 1) < length pixels"
      using cell_bound[of "x + 1" w y h] yh len by simp
    have in2: "y + 1 < h \<Longrightarrow> 1 \<le> x \<Longrightarrow> (y + 1) * w + (x - 1) < length pixels1"
      using cell_bound[of "x - 1" w "y + 1" h] xw l by simp
    have in3: "y + 1 < h \<Longrightarrow> (y + 1) * w + x < length pixels2"
      using cell_bound[of x w "y + 1" h] xw l by simp
    have in4: "y + 1 < h \<Longrightarrow> x + 1 < w \<Longrightarrow> (y + 1) * w + (x + 1) < length pixels3"
      using cell_bound[of "x + 1" w "y + 1" h] l by simp
    have e1: "x + 1 < w \<Longrightarrow> (y' * w + x' = y * w + (x + 1)) = (x' = x + 1 \<and> y' = y)"
      using cell_eq[of x' w "x + 1" y' y] b by blast
    have e2: "1 \<le> x \<Longrightarrow> (y' * w + x' = (y + 1) * w + (x - 1)) = (x' + 1 = x \<and> y' = y + 1)"
      using cell_eq[of x' w "x - 1" y' "y + 1"] b xw by auto
    have e3: "(y' * w + x' = (y + 1) * w + x) = (x' = x \<and> y' = y + 1)"
      using cell_eq[of x' w x y' "y + 1"] b xw by blast
    have e4: "x + 1 < w \<Longrightarrow> (y' * w + x' = (y + 1) * w + (x + 1)) = (x' = x + 1 \<and> y' = y + 1)"
      using cell_eq[of x' w "x + 1" y' "y + 1"] b by blast
    have p1: "pixels1 ! (y' * w + x') = (if x + 1 < w \<and> x' = x + 1 \<and> y' = y then withShare fl (pixels ! (y' * w + x')) e 7 else pixels ! (y' * w + x'))"
      unfolding pixels1_def using nth_addError[OF in1, of fl e 7 "y' * w + x'"] e1 by auto
    have p2: "pixels2 ! (y' * w + x') = (if y + 1 < h \<and> 1 \<le> x \<and> x' + 1 = x \<and> y' = y + 1 then withShare fl (pixels1 ! (y' * w + x')) e 3 else pixels1 ! (y' * w + x'))"
      unfolding pixels2_def using nth_addError[OF in2, of fl e 3 "y' * w + x'"] e2 by auto
    have p3: "pixels3 ! (y' * w + x') = (if y + 1 < h \<and> x' = x \<and> y' = y + 1 then withShare fl (pixels2 ! (y' * w + x')) e 5 else pixels2 ! (y' * w + x'))"
      unfolding pixels3_def using nth_addError[OF in3, of fl e 5 "y' * w + x'"] e3 by auto
    have p4: "pixels4 ! (y' * w + x') = (if y + 1 < h \<and> x + 1 < w \<and> x' = x + 1 \<and> y' = y + 1 then withShare fl (pixels3 ! (y' * w + x')) e 1 else pixels3 ! (y' * w + x'))"
      unfolding pixels4_def using nth_addError[OF in4, of fl e 1 "y' * w + x'"] e4 by auto
    show ?thesis
      unfolding p4 p3 p2 p1 fsWeight_cases using b by auto
  qed
  have "\<forall>x' y'. x' < w \<and> y' < h \<longrightarrow>
               pixels4 ! (y' * w + x') =
                 (if fsWeight (int x' - int x) (int y' - int y) = 0 then pixels ! (y' * w + x')
                  else withShare fl (pixels ! (y' * w + x')) (quantError fl (r, g, b, a) chosen)
                         (fsWeight (int x' - int x) (int y' - int y)))"
    using share unfolding e_def by simp
  moreover have "length pixels4 = length pixels" using l(4) len by simp
  ultimately show ?thesis
    using ch step by (intro exI[of _ chosen] exI[of _ pixels4] exI[of _ res']) simp
qed

lemma fsCoords_Suc: "fsCoords w (Suc h) = fsCoords w h @ map (\<lambda>x. (x, h)) [0 ..< w]"
  by (simp add: fsCoords_def)

lemma length_fsCoords: "length (fsCoords w h) = w * h"
  by (induction h) (simp_all add: fsCoords_Suc, simp add: fsCoords_def)

lemma fsCoords_nth: "i < w * h \<Longrightarrow> fsCoords w h ! i = (i mod w, i div w)"
proof (induction h)
  case 0
  then show ?case by simp
next
  case (Suc h)
  show ?case
  proof (cases "i < w * h")
    case True
    then show ?thesis using Suc.IH by (simp add: fsCoords_Suc nth_append length_fsCoords)
  next
    case False
    then have i: "w * h \<le> i" "i - w * h < w" using Suc.prems by auto
    then have "i = h * w + (i - w * h)" by (simp add: mult.commute)
    then have "i mod w = i - w * h" "i div w = h"
      using i(2) by (metis mod_mult_self3 mod_less, metis div_mult_self3 div_less add.right_neutral not_less_zero)
    then show ?thesis using False i by (simp add: fsCoords_Suc nth_append length_fsCoords)
  qed
qed

text \<open>
  C4 (as stated): the error passed on is the clamped, rounded working value minus the
  chosen palette value. In a column of three pixels \<open>100, 0, 0\<close> with the palette black
  and white, the second pixel has the working value \<open>31.25\<close> when it is processed; it is
  rounded to 31 only for the palette search, and the pixel below receives
  \<open>31.25 * 5 / 16 = 9.765625\<close>, not \<open>31 * 5 / 16 = 9.6875\<close>. All these values are doubles, so
  the rounding of the arithmetic changes none of them.
\<close>

theorem fsStep_clamped_error_counterexample:
  "fsLoop roundDouble 1 3 [(0, 0, 0, 255), (255, 255, 255, 255)] [(0, 0)]
       ([(100, 100, 100, 255), (0, 0, 0, 255), (0, 0, 0, 255)], replicate 12 0)
     = Inr ([(100, 100, 100, 255), (125 / 4, 125 / 4, 125 / 4, 255), (0, 0, 0, 255)],
            [0, 0, 0, 255, 0, 0, 0, 0, 0, 0, 0, 0])
   \<and> findNearestColor (clampRound (125 / 4), clampRound (125 / 4), clampRound (125 / 4), 255)
       [(0, 0, 0, 255), (255, 255, 255, 255)] = Some (0, 0, 0, 255)
   \<and> fsStep roundDouble 1 3 [(0, 0, 0, 255), (255, 255, 255, 255)]
        ([(100, 100, 100, 255), (125 / 4, 125 / 4, 125 / 4, 255), (0, 0, 0, 255)],
         [0, 0, 0, 255, 0, 0, 0, 0, 0, 0, 0, 0]) (0, 1)
      = Inr ([(100, 100, 100, 255), (125 / 4, 125 / 4, 125 / 4, 255), (625 / 64, 625 / 64, 625 / 64, 255)],
             [0, 0, 0, 255, 0, 0, 0, 255, 0, 0, 0, 0])
   \<and> withShare roundDouble (0, 0, 0, 255)
        (specError (125 / 4, 125 / 4, 125 / 4, 255) (0, 0, 0, 255)) 5
      = (155 / 16, 155 / 16, 155 / 16, 255)
   \<and> (155 / 16 :: rat) \<noteq> 625 / 64"
  by code_simp

text \<open>
  C4 (amended): pixels are processed row by row (the pixel \<open>(x, y)\<close> is number
  \<open>y * w + x\<close>), and for every non-transparent pixel the step finds the palette colour
  nearest to the clamped, rounded working value. The error is the working value itself,
  neither clamped nor rounded to an integer, minus the chosen colour. Afterwards the pixel
  to the right holds its working value plus 7 sixteenths of the error, the pixel
  bottom-left 3, the pixel below 5 and the pixel bottom-right 1 sixteenth, each computed as
  \<^verbatim>\<open>p + error * k / 16\<close> in the arithmetic of doubles (whatever the rounding \<open>fl\<close> of one
  operation is); every other pixel of the buffer keeps its working value, and a neighbour
  outside the buffer is skipped on its own.
\<close>

theorem fsStep_diffusion:
  assumes "palette \<noteq> []" and "x < w" and "y < h" and "length pixels = w * h"
    and "pixels ! (y * w + x) = (r, g, b, a)" and "a \<noteq> 0"
  shows "(\<exists>chosen pixels' res'.
           findNearestColor (clampRound r, clampRound g, clampRound b, a) palette = Some chosen
         \<and> fsStep fl w h palette (pixels, res) (x, y) = Inr (pixels', res')
         \<and> length pixels' = length pixels
         \<and> (\<forall>x' y'. x' < w \<and> y' < h \<longrightarrow>
               pixels' ! (y' * w + x') =
                 (if fsWeight (int x' - int x) (int y' - int y) = 0 then pixels ! (y' * w + x')
                  else withShare fl (pixels ! (y' * w + x')) (quantError fl (r, g, b, a) chosen)
                         (fsWeight (int x' - int x) (int y' - int y)))))
       \<and> fsCoords w h ! (y * w + x) = (x, y)"
proof -
  have "y * w + x < w * h" using cell_bound assms(2,3) by simp
  then have "fsCoords w h ! (y * w + x) = (x, y)" using assms(2) by (simp add: fsCoords_nth)
  then show ?thesis using fsStep_shares[OF assms] by blast
qed

theorem fsStep_diffusion_witness:
  "\<exists>chosen pixels' res'.
      findNearestColor (clampRound (125 / 4), clampRound (125 / 4), clampRound (125 / 4), 255)
        [(0, 0, 0, 255), (255, 255, 255, 255)] = Some chosen
    \<and> fsStep roundDouble 1 3 [(0, 0, 0, 255), (255, 255, 255, 255)]
         ([(100, 100, 100, 255), (125 / 4, 125 / 4, 125 / 4, 255), (0, 0, 0, 255)],
          [0, 0, 0, 255, 0, 0, 0, 0, 0, 0, 0, 0]) (0, 1) = Inr (pixels', res')
    \<and> pixels' ! 2 = withShare roundDouble (0, 0, 0, 255)
                       (quantError roundDouble (125 / 4, 125 / 4, 125 / 4, 255) chosen) 5
    \<and> pixels' ! 0 = (100, 100, 100, 255)"
proof -
  let ?P = "[(0, 0, 0, 255), (255, 255, 255, 255)] :: RGBA list"
  let ?A = "[(100, 100, 100, 255), (125 / 4, 125 / 4, 125 / 4, 255), (0, 0, 0, 255)] :: workPixel list"
  let ?R = "[0, 0, 0, 255, 0, 0, 0, 0, 0, 0, 0, 0] :: int list"
  have h: "?P \<noteq> []" "(0::nat) < 1" "(1::nat) < 3" "length ?A = 1 * 3"
    "?A ! (1 * 1 + 0) = (125 / 4, 125 / 4, 125 / 4, 255)" "(255::int) \<noteq> 0"
    by simp_all
  from fsStep_diffusion[OF h, of roundDouble ?R] obtain chosen pixels' res' where f:
    "findNearestColor (clampRound (125 / 4), clampRound (125 / 4), clampRound (125 / 4), 255) ?P = Some chosen"
    "fsStep roundDouble 1 3 ?P (?A, ?R) (0, 1) = Inr (pixels', res')"
    "\<forall>x' y'. x' < 1 \<and> y' < 3 \<longrightarrow>
               pixels' ! (y' * 1 + x') =
                 (if fsWeight (int x' - int 0) (int y' - int 1) = 0 then ?A ! (y' * 1 + x')
                  else withShare roundDouble (?A ! (y' * 1 + x'))
                         (quantError roundDouble (125 / 4, 125 / 4, 125 / 4, 255) chosen)
                         (fsWeight (int x' - int 0) (int y' - int 1)))"
    by blast
  have "pixels' ! 2 = withShare roundDouble (0, 0, 0, 255)
                        (quantError roundDouble (125 / 4, 125 / 4, 125 / 4, 255) chosen) 5"
    using f(3)[rule_format, of 0 2] by (simp add: fsWeight_def)
  moreover have "pixels' ! 0 = (100, 100, 100, 255)"
    using f(3)[rule_format, of 0 0] by (simp add: fsWeight_def)
  ultimately show ?thesis using f(1,2) by blast
qed

section \<open>Palette extraction: properties\<close>

lemma length_splitBox: "length boxes < length (splitBox boxes i ch)"
  by (simp add: splitBox_def Let_def)

subsection \<open>Deduplication\<close>

lemma uniqueSet_eq: "uniqueSet c u = (if c \<in> set u then u else u @ [c])"
  by (induction u) auto

lemma dedupe_snoc: "dedupe (xs @ [x]) = uniqueSet x (dedupe xs)"
  by (simp add: dedupe_def)

lemma firstSeen_snoc: "firstSeen (xs @ [x]) = (if x \<in> set xs then firstSeen xs else firstSeen xs @ [x])"
  by (simp add: firstSeen_def)

lemma set_firstSeen [simp]: "set (firstSeen xs) = set xs"
  by (simp add: firstSeen_def)

lemma distinct_firstSeen [simp]: "distinct (firstSeen xs)"
  by (simp add: firstSeen_def)

lemma length_firstSeen: "length (firstSeen xs) = card (set xs)"
  using distinct_card[of "firstSeen xs"] by simp

lemma dedupe_firstSeen: "dedupe xs = firstSeen xs"
proof (induction xs rule: rev_induct)
  case Nil
  then show ?case by (simp add: dedupe_def firstSeen_def)
next
  case (snoc x xs)
  then show ?case by (simp add: dedupe_snoc firstSeen_snoc uniqueSet_eq)
qed

subsection \<open>K-means\<close>

lemma length_seedLoop:
  "length (seedLoop targetCount c0 colors centroids) = max targetCount (length centroids)"
proof (induction targetCount c0 colors centroids rule: seedLoop.induct)
  case (1 targetCount c0 colors centroids)
  show ?case
  proof (cases "length centroids < targetCount")
    case True
    then show ?thesis using 1 by (subst seedLoop.simps) auto
  next
    case False
    then show ?thesis by (subst seedLoop.simps) auto
  qed
qed

lemma length_updateCentroids: "length (snd (updateCentroids centroids clusters)) = length centroids"
proof -
  have "length (snd (foldl (\<lambda>(changed, cs) i.
              if length (clusters ! i) = 0 then (changed, cs)
              else
                let newCentroid = averageColor (clusters ! i)
                in if channelOf newCentroid 0 \<noteq> channelOf (cs ! i) 0
                      \<or> channelOf newCentroid 1 \<noteq> channelOf (cs ! i) 1
                      \<or> channelOf newCentroid 2 \<noteq> channelOf (cs ! i) 2
                   then (True, cs[i := newCentroid])
                   else (changed, cs)) st is)) = length (snd st)" for st "is"
    by (induction "is" arbitrary: st) (auto simp: Let_def split: prod.splits)
  then show ?thesis by (simp add: updateCentroids_def)
qed

lemma refineLoop_props:
  "length (fst (refineLoop iter maxIterations colors centroids)) = length centroids
   \<and> snd (refineLoop iter maxIterations colors centroids) \<le> max iter maxIterations"
proof (induction iter maxIterations colors centroids rule: refineLoop.induct)
  case (1 iter maxIterations colors centroids)
  show ?case
  proof (cases "iter < maxIterations")
    case False
    then show ?thesis by (subst refineLoop.simps, subst (2) refineLoop.simps) simp
  next
    case True
    obtain changed cs where u: "updateCentroids centroids (assignClusters colors centroids) = (changed, cs)"
      by (cases "updateCentroids centroids (assignClusters colors centroids)") auto
    have l: "length cs = length centroids"
      using length_updateCentroids[of centroids "assignClusters colors centroids"] u by simp
    show ?thesis
    proof (cases changed)
      case False
      then show ?thesis using True u l by (subst refineLoop.simps, subst (2) refineLoop.simps) simp
    next
      case c: True
      have "length (fst (refineLoop (iter + 1) maxIterations colors cs)) = length cs
         \<and> snd (refineLoop (iter + 1) maxIterations colors cs) \<le> max (iter + 1) maxIterations"
        using 1[OF True u[symmetric]] c by simp
      then show ?thesis using True u l c by (subst refineLoop.simps, subst (2) refineLoop.simps) auto
    qed
  qed
qed

lemma kMeansRun_length:
  "length (fst (kMeansRun randomIndex colors targetCount maxIterations)) =
     (if length colors \<le> targetCount then card (set colors) else max targetCount 1)"
proof (cases colors)
  case Nil
  then show ?thesis by (simp add: kMeansRun_def)
next
  case (Cons c0 rest)
  then show ?thesis
    by (simp add: kMeansRun_def Let_def dedupe_firstSeen length_firstSeen refineLoop_props length_seedLoop)
qed

lemma kMeansRun_iterations:
  "snd (kMeansRun randomIndex colors targetCount maxIterations) \<le> maxIterations"
proof (cases colors)
  case Nil
  then show ?thesis by (simp add: kMeansRun_def)
next
  case (Cons c0 rest)
  then show ?thesis
    using refineLoop_props[of 0 maxIterations colors] by (simp add: kMeansRun_def Let_def)
qed

subsection \<open>The frequency map\<close>

lemma map_fst_countColor:
  "map fst (countColor c m) = (if c \<in> set (map fst m) then map fst m else map fst m @ [c])"
proof (induction m)
  case Nil
  then show ?case by simp
next
  case (Cons e m)
  obtain k n where e: "e = (k, n)" by (cases e) auto
  show ?case
  proof (cases "k = c")
    case True
    then show ?thesis unfolding e by simp
  next
    case False
    then show ?thesis unfolding e using Cons.IH by simp
  qed
qed

lemma frequency_fold:
  "foldl (\<lambda>colorMap i. let c = f i in if alphaOf c = 0 then colorMap else countColor c colorMap) m ixs
   = foldl (\<lambda>colorMap c. countColor c colorMap) m (filter (\<lambda>c. alphaOf c \<noteq> 0) (map f ixs))"
  by (induction ixs arbitrary: m) (simp_all add: Let_def)

lemma extractColorsWithFrequency_alt:
  "extractColorsWithFrequency img = foldl (\<lambda>colorMap c. countColor c colorMap) [] (extractAllColors img)"
  unfolding extractColorsWithFrequency_def extractAllColors_def by (rule frequency_fold)

lemma frequency_keys:
  "map fst (foldl (\<lambda>colorMap c. countColor c colorMap) [] colors) = firstSeen colors"
proof (induction colors rule: rev_induct)
  case Nil
  then show ?case by (simp add: firstSeen_def)
next
  case (snoc x xs)
  then show ?case by (simp add: map_fst_countColor firstSeen_snoc)
qed

lemma extractColorsWithFrequency_keys:
  "map fst (extractColorsWithFrequency img) = firstSeen (extractAllColors img)"
  by (simp add: extractColorsWithFrequency_alt frequency_keys)

lemma countUniqueColors_card: "countUniqueColors img = card (set (extractAllColors img))"
proof -
  have "length (map fst (extractColorsWithFrequency img)) = card (set (extractAllColors img))"
    by (simp only: extractColorsWithFrequency_keys length_firstSeen)
  then show ?thesis by (simp add: countUniqueColors_def)
qed

lemma countUniqueColors_le: "countUniqueColors img \<le> length (extractAllColors img)"
  by (simp add: countUniqueColors_card card_length)

text \<open>
  What \<^verbatim>\<open>kMeans\<close> computes: the shortcut \<^verbatim>\<open>colors.length <= targetCount\<close> looks at the
  number of opaque pixels. Up to that many pixels the result is the distinct colours;
  beyond it the seeding always produces \<open>colorCount\<close> centroids (one when \<open>colorCount\<close> is
  0), whatever the number of distinct colours. The refinement loop runs at most 20 times.
\<close>

lemma kMeans_shortcut_on_pixel_count:
  "extractPalette randomIndex imageData \<lparr>colorCount = requested, algorithm = KMeans, dithering = d\<rparr>
     = fst (kMeansRun randomIndex (extractAllColors imageData) requested 20)
   \<and> length (fst (kMeansRun randomIndex (extractAllColors imageData) requested 20))
     = (if length (extractAllColors imageData) \<le> requested then min requested (countUniqueColors imageData)
        else max requested 1)
   \<and> snd (kMeansRun randomIndex (extractAllColors imageData) requested 20) \<le> 20"
proof -
  have "length (extractAllColors imageData) \<le> requested \<Longrightarrow>
          min requested (countUniqueColors imageData) = card (set (extractAllColors imageData))"
    using countUniqueColors_le[of imageData] by (simp add: countUniqueColors_card)
  then show ?thesis
    using kMeansRun_iterations[of randomIndex "extractAllColors imageData" requested 20]
    by (simp add: extractPalette_def kMeans_def Let_def kMeansRun_length)
qed

text \<open>
  C3: k-means extraction returns \<open>min(colorCount, distinct colours)\<close> centroids, after at
  most 20 rounds of refinement. The code departs from this on an image of three pixels of
  the one colour \<open>(7, 7, 7, 255)\<close> with \<open>colorCount = 2\<close>. The image has one distinct
  colour, so the minimum is 1, and median cut and frequency return that one colour. The
  shortcut of \<^verbatim>\<open>kMeans\<close> for an image with no more colours than requested tests
  \<^verbatim>\<open>colors.length\<close>, the three pixels, instead of the distinct colours it then returns; it
  is not taken, the seeding picks the same colour a second time, and the palette has two
  equal entries. The refinement stops in its first round.
\<close>

theorem kMeans_repeated_centroid:
  "countUniqueColors \<lparr>width = 3, height = 1, data = [7, 7, 7, 255, 7, 7, 7, 255, 7, 7, 7, 255]\<rparr> = 1
   \<and> extractPalette 0 \<lparr>width = 3, height = 1, data = [7, 7, 7, 255, 7, 7, 7, 255, 7, 7, 7, 255]\<rparr>
        \<lparr>colorCount = 2, algorithm = KMeans, dithering = False\<rparr> = [(7, 7, 7, 255), (7, 7, 7, 255)]
   \<and> extractPalette 0 \<lparr>width = 3, height = 1, data = [7, 7, 7, 255, 7, 7, 7, 255, 7, 7, 7, 255]\<rparr>
        \<lparr>colorCount = 2, algorithm = MedianCut, dithering = False\<rparr> = [(7, 7, 7, 255)]
   \<and> extractPalette 0 \<lparr>width = 3, height = 1, data = [7, 7, 7, 255, 7, 7, 7, 255, 7, 7, 7, 255]\<rparr>
        \<lparr>colorCount = 2, algorithm = Frequency, dithering = False\<rparr> = [(7, 7, 7, 255)]
   \<and> map (\<lambda>randomIndex. kMeansRun randomIndex
              (extractAllColors \<lparr>width = 3, height = 1, data = [7, 7, 7, 255, 7, 7, 7, 255, 7, 7, 7, 255]\<rparr>)
              2 20) [0, 1, 2]
       = replicate 3 ([(7, 7, 7, 255), (7, 7, 7, 255)], 1)"
  by code_simp

subsection \<open>Counts of the frequency map\<close>

lemma map_of_countColor:
  "map_of (countColor c m) = (map_of m)(c \<mapsto> (case map_of m c of None \<Rightarrow> 1 | Some n \<Rightarrow> n + 1))"
proof (induction m)
  case Nil
  then show ?case by simp
next
  case (Cons e m)
  obtain k n where e: "e = (k, n)" by (cases e) auto
  show ?case
  proof (cases "k = c")
    case True
    then show ?thesis unfolding e by (auto simp: fun_eq_iff)
  next
    case False
    then show ?thesis unfolding e using Cons.IH by (auto simp: fun_eq_iff)
  qed
qed

lemma map_of_frequency:
  "map_of (foldl (\<lambda>colorMap c. countColor c colorMap) [] colors) c =
     (if c \<in> set colors then Some (count_list colors c) else None)"
proof (induction colors rule: rev_induct)
  case Nil
  then show ?case by simp
next
  case (snoc x xs)
  then show ?case by (auto simp: map_of_countColor)
qed

lemma frequency_counts:
  assumes "e \<in> set (extractColorsWithFrequency img)"
  shows "snd e = count_list (extractAllColors img) (fst e)"
proof -
  let ?m = "extractColorsWithFrequency img"
  have "distinct (map fst ?m)" by (simp add: extractColorsWithFrequency_keys)
  then have "map_of ?m (fst e) = Some (snd e)" using assms by simp
  then show ?thesis
    unfolding extractColorsWithFrequency_alt map_of_frequency by (simp split: if_splits)
qed

lemma frequencyBased_all:
  assumes "length m \<le> n"
  shows "frequencyBased m n = map fst (sort_key (\<lambda>entry. - int (snd entry)) m)"
  using assms by (simp add: frequencyBased_def)

lemma frequency_sorted:
  "sorted_wrt (\<lambda>a b. count_list (extractAllColors img) b \<le> count_list (extractAllColors img) a)
     (map fst (sort_key (\<lambda>entry. - int (snd entry)) (extractColorsWithFrequency img)))"
proof -
  let ?m = "extractColorsWithFrequency img"
  let ?s = "sort_key (\<lambda>entry. - int (snd entry)) ?m"
  have "sorted (map (\<lambda>entry. - int (snd entry)) ?s)" by (rule sorted_sort_key)
  then have "sorted_wrt (\<lambda>e e'. - int (snd e) \<le> - int (snd e')) ?s"
    by (simp add: sorted_map)
  then have "sorted_wrt (\<lambda>e e'. count_list (extractAllColors img) (fst e') \<le> count_list (extractAllColors img) (fst e)) ?s"
  proof (rule sorted_wrt_mono_rel[rotated])
    fix e e' assume "e \<in> set ?s" "e' \<in> set ?s" "- int (snd e) \<le> - int (snd e')"
    then show "count_list (extractAllColors img) (fst e') \<le> count_list (extractAllColors img) (fst e)"
      using frequency_counts[of e img] frequency_counts[of e' img] by simp
  qed
  then show ?thesis by (simp add: sorted_wrt_map)
qed

lemma frequency_palette_all:
  assumes "countUniqueColors img \<le> n"
  shows "mset (frequencyBased (extractColorsWithFrequency img) n) = mset (firstSeen (extractAllColors img))"
    "distinct (frequencyBased (extractColorsWithFrequency img) n)"
    "sorted_wrt (\<lambda>a b. count_list (extractAllColors img) b \<le> count_list (extractAllColors img) a)
       (frequencyBased (extractColorsWithFrequency img) n)"
proof -
  let ?m = "extractColorsWithFrequency img"
  have f: "frequencyBased ?m n = map fst (sort_key (\<lambda>entry. - int (snd entry)) ?m)"
    using assms by (simp add: frequencyBased_all countUniqueColors_def)
  have "mset (map fst (sort_key (\<lambda>entry. - int (snd entry)) ?m)) = mset (map fst ?m)"
    by simp
  then show m: "mset (frequencyBased ?m n) = mset (firstSeen (extractAllColors img))"
    unfolding f by (simp add: extractColorsWithFrequency_keys)
  show "distinct (frequencyBased ?m n)"
    using m distinct_firstSeen[of "extractAllColors img"] by (metis mset_eq_imp_distinct_iff)
  show "sorted_wrt (\<lambda>a b. count_list (extractAllColors img) b \<le> count_list (extractAllColors img) a)
       (frequencyBased ?m n)"
    unfolding f by (rule frequency_sorted)
qed

text \<open>
  The sort of \<^verbatim>\<open>frequencyBased\<close> is stable: on the keys of the frequency map, which are in
  first-seen order, it is the stable sort by descending pixel count.
\<close>

lemma insort_key_cong_set:
  "f x = g x \<Longrightarrow> (\<And>y. y \<in> set ys \<Longrightarrow> f y = g y) \<Longrightarrow> insort_key f x ys = insort_key g x ys"
  by (induction ys) simp_all

lemma sort_key_cong_set:
  "(\<And>x. x \<in> set xs \<Longrightarrow> f x = g x) \<Longrightarrow> sort_key f xs = sort_key g xs"
proof (induction xs)
  case Nil
  then show ?case by simp
next
  case (Cons x xs)
  have "sort_key f xs = sort_key g xs" using Cons by simp
  moreover have "insort_key f x (sort_key g xs) = insort_key g x (sort_key g xs)"
    using Cons.prems by (intro insort_key_cong_set) simp_all
  ultimately show ?case by simp
qed

lemma map_insort_key:
  "map h (insort_key (\<lambda>e. k (h e)) x ys) = insort_key k (h x) (map h ys)"
  by (induction ys) simp_all

lemma map_sort_key: "map h (sort_key (\<lambda>e. k (h e)) xs) = sort_key k (map h xs)"
  by (induction xs) (simp_all add: map_insort_key)

lemma frequency_order:
  "map fst (sort_key (\<lambda>entry. - int (snd entry)) (extractColorsWithFrequency img))
     = sort_key (\<lambda>c. - int (count_list (extractAllColors img) c)) (firstSeen (extractAllColors img))"
proof -
  let ?m = "extractColorsWithFrequency img"
  let ?k = "\<lambda>c. - int (count_list (extractAllColors img) c)"
  have "sort_key (\<lambda>entry. - int (snd entry)) ?m = sort_key (\<lambda>entry. ?k (fst entry)) ?m"
    by (rule sort_key_cong_set) (simp add: frequency_counts)
  then have "map fst (sort_key (\<lambda>entry. - int (snd entry)) ?m) = sort_key ?k (map fst ?m)"
    using map_sort_key[of fst ?k ?m] by simp
  then show ?thesis by (simp only: extractColorsWithFrequency_keys)
qed

lemma frequency_palette_order:
  assumes "countUniqueColors img \<le> n"
  shows "frequencyBased (extractColorsWithFrequency img) n
           = sort_key (\<lambda>c. - int (count_list (extractAllColors img) c)) (firstSeen (extractAllColors img))"
    and "filter (\<lambda>c. count_list (extractAllColors img) c = k) (frequencyBased (extractColorsWithFrequency img) n)
           = filter (\<lambda>c. count_list (extractAllColors img) c = k) (firstSeen (extractAllColors img))"
proof -
  let ?k = "\<lambda>c. - int (count_list (extractAllColors img) c)"
  show f: "frequencyBased (extractColorsWithFrequency img) n = sort_key ?k (firstSeen (extractAllColors img))"
    using assms by (simp add: frequencyBased_all countUniqueColors_def frequency_order)
  have "filter (\<lambda>c. ?k c = - int k) (sort_key ?k (firstSeen (extractAllColors img)))
          = filter (\<lambda>c. ?k c = - int k) (firstSeen (extractAllColors img))"
    by (rule sort_key_stable)
  then show "filter (\<lambda>c. count_list (extractAllColors img) c = k) (frequencyBased (extractColorsWithFrequency img) n)
           = filter (\<lambda>c. count_list (extractAllColors img) c = k) (firstSeen (extractAllColors img))"
    unfolding f by simp
qed

lemma medianCut_small: "length colors \<le> n \<Longrightarrow> medianCut colors n = firstSeen colors"
  by (cases colors) (simp_all add: medianCut_def dedupe_firstSeen firstSeen_def)

lemma kMeans_small: "length colors \<le> n \<Longrightarrow> kMeans r colors n = firstSeen colors"
  by (cases colors) (simp_all add: kMeans_def kMeansRun_def dedupe_firstSeen firstSeen_def)

text \<open>
  C2 (amended): when the image has at most \<open>colorCount\<close> opaque pixels, median cut and
  k-means return the distinct opaque colours in first-seen order; when it has at most
  \<open>colorCount\<close> distinct opaque colours, frequency returns exactly those colours, each
  once, ordered by descending number of pixels, and colours with the same number of
  pixels stay in first-seen order: the palette is the stable sort of the first-seen list
  by descending pixel count, so for every count \<open>k\<close> the colours of \<open>k\<close> pixels appear in
  the palette in the order in which they appear in the first-seen list.
\<close>

theorem extractPalette_all_colors:
  "(length (extractAllColors imageData) \<le> requested \<longrightarrow>
       extractPalette randomIndex imageData \<lparr>colorCount = requested, algorithm = MedianCut, dithering = d\<rparr>
         = firstSeen (extractAllColors imageData)
     \<and> extractPalette randomIndex imageData \<lparr>colorCount = requested, algorithm = KMeans, dithering = d\<rparr>
         = firstSeen (extractAllColors imageData))
   \<and> (countUniqueColors imageData \<le> requested \<longrightarrow>
       mset (extractPalette randomIndex imageData \<lparr>colorCount = requested, algorithm = Frequency, dithering = d\<rparr>)
         = mset (firstSeen (extractAllColors imageData))
     \<and> distinct (extractPalette randomIndex imageData \<lparr>colorCount = requested, algorithm = Frequency, dithering = d\<rparr>)
     \<and> sorted_wrt (\<lambda>a b. count_list (extractAllColors imageData) b \<le> count_list (extractAllColors imageData) a)
         (extractPalette randomIndex imageData \<lparr>colorCount = requested, algorithm = Frequency, dithering = d\<rparr>)
     \<and> (\<forall>k. filter (\<lambda>c. count_list (extractAllColors imageData) c = k)
               (extractPalette randomIndex imageData \<lparr>colorCount = requested, algorithm = Frequency, dithering = d\<rparr>)
             = filter (\<lambda>c. count_list (extractAllColors imageData) c = k) (firstSeen (extractAllColors imageData)))
     \<and> extractPalette randomIndex imageData \<lparr>colorCount = requested, algorithm = Frequency, dithering = d\<rparr>
         = sort_key (\<lambda>c. - int (count_list (extractAllColors imageData) c)) (firstSeen (extractAllColors imageData)))"
  using frequency_palette_all[of imageData requested] frequency_palette_order[of imageData requested]
  by (simp add: extractPalette_def Let_def medianCut_small kMeans_small)

text \<open>
  C2 (as stated): with \<open>colorCount\<close> at least the number of distinct colours, every
  algorithm returns the distinct colours in first-seen order. One black and four red
  pixels with \<open>colorCount = 2\<close>: median cut returns \<open>(128, 0, 0, 255)\<close>, which is not a
  colour of the image. One pixel of \<open>(9, 9, 9)\<close> then two of \<open>(5, 5, 5)\<close>: frequency
  returns the more frequent colour first.
\<close>

theorem extractPalette_all_colors_counterexample:
  "countUniqueColors \<lparr>width = 5, height = 1,
       data = [0, 0, 0, 255, 255, 0, 0, 255, 255, 0, 0, 255, 255, 0, 0, 255, 255, 0, 0, 255]\<rparr> \<le> 2
   \<and> extractPalette 0 \<lparr>width = 5, height = 1,
       data = [0, 0, 0, 255, 255, 0, 0, 255, 255, 0, 0, 255, 255, 0, 0, 255, 255, 0, 0, 255]\<rparr>
       \<lparr>colorCount = 2, algorithm = MedianCut, dithering = False\<rparr> = [(128, 0, 0, 255), (255, 0, 0, 255)]
   \<and> extractPalette 0 \<lparr>width = 5, height = 1,
       data = [0, 0, 0, 255, 255, 0, 0, 255, 255, 0, 0, 255, 255, 0, 0, 255, 255, 0, 0, 255]\<rparr>
       \<lparr>colorCount = 2, algorithm = MedianCut, dithering = False\<rparr>
     \<noteq> firstSeen (extractAllColors \<lparr>width = 5, height = 1,
       data = [0, 0, 0, 255, 255, 0, 0, 255, 255, 0, 0, 255, 255, 0, 0, 255, 255, 0, 0, 255]\<rparr>)
   \<and> countUniqueColors \<lparr>width = 3, height = 1, data = [9, 9, 9, 255, 5, 5, 5, 255, 5, 5, 5, 255]\<rparr> \<le> 2
   \<and> extractPalette 0 \<lparr>width = 3, height = 1, data = [9, 9, 9, 255, 5, 5, 5, 255, 5, 5, 5, 255]\<rparr>
       \<lparr>colorCount = 2, algorithm = Frequency, dithering = False\<rparr> = [(5, 5, 5, 255), (9, 9, 9, 255)]
   \<and> extractPalette 0 \<lparr>width = 3, height = 1, data = [9, 9, 9, 255, 5, 5, 5, 255, 5, 5, 5, 255]\<rparr>
       \<lparr>colorCount = 2, algorithm = Frequency, dithering = False\<rparr>
     \<noteq> firstSeen (extractAllColors \<lparr>width = 3, height = 1, data = [9, 9, 9, 255, 5, 5, 5, 255, 5, 5, 5, 255]\<rparr>)"
  by code_simp

theorem extractPalette_all_colors_witness:
  "length (extractAllColors \<lparr>width = 5, height = 1,
       data = [9, 9, 9, 255, 5, 5, 5, 255, 3, 3, 3, 255, 3, 3, 3, 255, 5, 5, 5, 255]\<rparr>) \<le> 5
   \<and> extractPalette 0 \<lparr>width = 5, height = 1,
       data = [9, 9, 9, 255, 5, 5, 5, 255, 3, 3, 3, 255, 3, 3, 3, 255, 5, 5, 5, 255]\<rparr>
       \<lparr>colorCount = 5, algorithm = MedianCut, dithering = False\<rparr>
     = [(9, 9, 9, 255), (5, 5, 5, 255), (3, 3, 3, 255)]
   \<and> extractPalette 0 \<lparr>width = 5, height = 1,
       data = [9, 9, 9, 255, 5, 5, 5, 255, 3, 3, 3, 255, 3, 3, 3, 255, 5, 5, 5, 255]\<rparr>
       \<lparr>colorCount = 5, algorithm = KMeans, dithering = False\<rparr>
     = [(9, 9, 9, 255), (5, 5, 5, 255), (3, 3, 3, 255)]
   \<and> countUniqueColors \<lparr>width = 5, height = 1,
       data = [9, 9, 9, 255, 5, 5, 5, 255, 3, 3, 3, 255, 3, 3, 3, 255, 5, 5, 5, 255]\<rparr> \<le> 5
   \<and> extractPalette 0 \<lparr>width = 5, height = 1,
       data = [9, 9, 9, 255, 5, 5, 5, 255, 3, 3, 3, 255, 3, 3, 3, 255, 5, 5, 5, 255]\<rparr>
       \<lparr>colorCount = 5, algorithm = Frequency, dithering = False\<rparr>
     = [(5, 5, 5, 255), (3, 3, 3, 255), (9, 9, 9, 255)]"
proof -
  let ?img = "\<lparr>width = 5, height = 1,
       data = [9, 9, 9, 255, 5, 5, 5, 255, 3, 3, 3, 255, 3, 3, 3, 255, 5, 5, 5, 255]\<rparr>"
  let ?cs = "[(9, 9, 9, 255), (5, 5, 5, 255), (3, 3, 3, 255), (3, 3, 3, 255), (5, 5, 5, 255)] :: RGBA list"
  have c: "extractAllColors ?img = ?cs" by code_simp
  have u: "countUniqueColors ?img = 3" by code_simp
  have f: "firstSeen ?cs = [(9, 9, 9, 255), (5, 5, 5, 255), (3, 3, 3, 255)]"
    by code_simp
  have s: "sort_key (\<lambda>c. - int (count_list ?cs c)) [(9, 9, 9, 255), (5, 5, 5, 255), (3, 3, 3, 255)]
             = [(5, 5, 5, 255), (3, 3, 3, 255), (9, 9, 9, 255)]"
    by code_simp
  note t = extractPalette_all_colors[of ?img 5 0 False]
  have h1: "length (extractAllColors ?img) \<le> 5" unfolding c by simp
  have h2: "countUniqueColors ?img \<le> 5" unfolding u by simp
  from t h1 have a:
    "extractPalette 0 ?img \<lparr>colorCount = 5, algorithm = MedianCut, dithering = False\<rparr> = firstSeen (extractAllColors ?img)"
    "extractPalette 0 ?img \<lparr>colorCount = 5, algorithm = KMeans, dithering = False\<rparr> = firstSeen (extractAllColors ?img)"
    by blast+
  from t h2 have b:
    "extractPalette 0 ?img \<lparr>colorCount = 5, algorithm = Frequency, dithering = False\<rparr>
       = sort_key (\<lambda>c. - int (count_list (extractAllColors ?img) c)) (firstSeen (extractAllColors ?img))"
    by blast
  show ?thesis using h1 h2 a[unfolded c f] b[unfolded c f s] by blast
qed

subsection \<open>Median cut\<close>

lemma scanBox_cases:
  assumes "scanBox (m, i, ch) (j, box) = (m', i', ch')"
  shows "m \<le> m'"
    and "(m', i', ch') = (m, i, ch) \<or> (i' = j \<and> 2 \<le> length box \<and> m < m')"
    and "2 \<le> length box \<Longrightarrow> c < 3 \<Longrightarrow> channelRange box c \<le> m'"
proof -
  have c3: "c < 3 \<Longrightarrow> c = 0 \<or> c = 1 \<or> c = 2" by arith
  show "m \<le> m'"
    using assms by (auto simp: scanBox_def Let_def split: if_splits)
  show "(m', i', ch') = (m, i, ch) \<or> (i' = j \<and> 2 \<le> length box \<and> m < m')"
    using assms by (auto simp: scanBox_def Let_def split: if_splits)
  show "2 \<le> length box \<Longrightarrow> c < 3 \<Longrightarrow> channelRange box c \<le> m'"
    using assms c3 by (auto simp: scanBox_def Let_def split: if_splits)
qed

lemma findSplit_snoc: "findSplit (bs @ [b]) = scanBox (findSplit bs) (length bs, b)"
  by (simp add: findSplit_def)

lemma findSplit_props:
  assumes "findSplit boxes = (m, i, ch)"
  shows "- 1 \<le> m"
    and "m = - 1 \<or> (i < length boxes \<and> 2 \<le> length (boxes ! i))"
    and "j < length boxes \<Longrightarrow> 2 \<le> length (boxes ! j) \<Longrightarrow> c < 3 \<Longrightarrow> channelRange (boxes ! j) c \<le> m"
proof -
  have "- 1 \<le> m \<and> (m = - 1 \<or> (i < length boxes \<and> 2 \<le> length (boxes ! i)))
       \<and> (\<forall>j c. j < length boxes \<longrightarrow> 2 \<le> length (boxes ! j) \<longrightarrow> c < 3 \<longrightarrow> channelRange (boxes ! j) c \<le> m)"
    using assms
  proof (induction boxes arbitrary: m i ch rule: rev_induct)
    case Nil
    then show ?case by (simp add: findSplit_def)
  next
    case (snoc b bs)
    obtain m0 i0 ch0 where f0: "findSplit bs = (m0, i0, ch0)" by (cases "findSplit bs") auto
    note ih = snoc.IH[OF f0]
    have sc: "scanBox (m0, i0, ch0) (length bs, b) = (m, i, ch)"
      using snoc.prems f0 by (simp add: findSplit_snoc)
    note s = scanBox_cases[OF sc]
    have 1: "- 1 \<le> m" using ih s(1) by simp
    have 2: "m = - 1 \<or> (i < length (bs @ [b]) \<and> 2 \<le> length ((bs @ [b]) ! i))"
      using s(2) ih by (auto simp: nth_append)
    have 3: "channelRange ((bs @ [b]) ! j) c \<le> m"
      if "j < length (bs @ [b])" "2 \<le> length ((bs @ [b]) ! j)" "c < 3" for j c
    proof (cases "j < length bs")
      case True
      then have "channelRange (bs ! j) c \<le> m0" using ih that by (simp add: nth_append)
      then show ?thesis using True s(1) by (simp add: nth_append)
    next
      case False
      then have "j = length bs" using that(1) by simp
      then show ?thesis using s(3)[of c] that by simp
    qed
    show ?case using 1 2 3 by blast
  qed
  then show "- 1 \<le> m" "m = - 1 \<or> (i < length boxes \<and> 2 \<le> length (boxes ! i))"
    "j < length boxes \<Longrightarrow> 2 \<le> length (boxes ! j) \<Longrightarrow> c < 3 \<Longrightarrow> channelRange (boxes ! j) c \<le> m"
    by blast+
qed

lemma fold_lo:
  "foldl (\<lambda>m c. if f c < m then f c else m) (a::int) xs \<le> a
   \<and> (\<forall>c\<in>set xs. foldl (\<lambda>m c. if f c < m then f c else m) a xs \<le> f c)"
proof (induction xs arbitrary: a)
  case Nil
  then show ?case by simp
next
  case (Cons x xs)
  show ?case using Cons[of "if f x < a then f x else a"] by (auto split: if_splits)
qed

lemma fold_hi:
  "(a::int) \<le> foldl (\<lambda>m c. if f c > m then f c else m) a xs
   \<and> (\<forall>c\<in>set xs. f c \<le> foldl (\<lambda>m c. if f c > m then f c else m) a xs)"
proof (induction xs arbitrary: a)
  case Nil
  then show ?case by simp
next
  case (Cons x xs)
  show ?case using Cons[of "if f x > a then f x else a"] by (auto split: if_splits)
qed

lemma channelRange_flat:
  assumes "channelRange box ch \<le> 0" "x \<in> set box" "y \<in> set box"
  shows "channelOf x ch = channelOf y ch"
proof -
  let ?lo = "foldl (\<lambda>m c. if channelOf c ch < m then channelOf c ch else m) 255 box"
  let ?hi = "foldl (\<lambda>m c. if channelOf c ch > m then channelOf c ch else m) 0 box"
  have "?hi \<le> ?lo" using assms(1) by (simp add: channelRange_def Let_def)
  moreover have "?lo \<le> channelOf x ch" "?lo \<le> channelOf y ch"
    using fold_lo[of "\<lambda>c. channelOf c ch" 255 box] assms(2,3) by auto
  moreover have "channelOf x ch \<le> ?hi" "channelOf y ch \<le> ?hi"
    using fold_hi[of 0 "\<lambda>c. channelOf c ch" box] assms(2,3) by auto
  ultimately show ?thesis by linarith
qed

lemma halves_nonempty:
  assumes "2 \<le> length xs"
  shows "take (length xs div 2) xs \<noteq> []" "drop (length xs div 2) xs \<noteq> []"
proof -
  have "0 < length xs div 2" "length xs div 2 < length xs" using assms by auto
  then have "length (take (length xs div 2) xs) \<noteq> 0" "length (drop (length xs div 2) xs) \<noteq> 0"
    by auto
  then show "take (length xs div 2) xs \<noteq> []" "drop (length xs div 2) xs \<noteq> []"
    by (metis length_0_conv)+
qed

lemma splitBox_props:
  assumes i: "i < length boxes" and two: "2 \<le> length (boxes ! i)" and ne: "\<forall>b\<in>set boxes. b \<noteq> []"
  shows "length (splitBox boxes i ch) = length boxes + 1"
    and "set (concat (splitBox boxes i ch)) = set (concat boxes)"
    and "\<forall>b\<in>set (splitBox boxes i ch). b \<noteq> []"
proof -
  let ?s = "sort_key (\<lambda>c. channelOf c ch) (boxes ! i)"
  let ?b1 = "take (length ?s div 2) ?s" and ?b2 = "drop (length ?s div 2) ?s"
  have sp: "splitBox boxes i ch = take i boxes @ [?b1, ?b2] @ drop (i + 1) boxes"
    by (simp add: splitBox_def Let_def)
  have bx: "boxes = take i boxes @ [boxes ! i] @ drop (i + 1) boxes"
    using i by (simp add: id_take_nth_drop)
  have ls: "length ?s = length (boxes ! i)" by simp
  show "length (splitBox boxes i ch) = length boxes + 1"
    unfolding sp using i by simp
  have "set ?b1 \<union> set ?b2 = set ?s" by (metis append_take_drop_id set_append)
  then have u: "set ?b1 \<union> set ?b2 = set (boxes ! i)" by simp
  have "set (concat (splitBox boxes i ch)) = set (concat (take i boxes)) \<union> (set ?b1 \<union> set ?b2) \<union> set (concat (drop (i + 1) boxes))"
    unfolding sp by auto
  also have "\<dots> = set (concat (take i boxes @ [boxes ! i] @ drop (i + 1) boxes))"
    unfolding u by auto
  also have "\<dots> = set (concat boxes)"
    using arg_cong[where f = "\<lambda>b. set (concat b)", OF bx] by simp
  finally show "set (concat (splitBox boxes i ch)) = set (concat boxes)" .
  have "2 \<le> length ?s" using two ls by simp
  then have "?b1 \<noteq> []" "?b2 \<noteq> []" using halves_nonempty[of ?s] by blast+
  moreover have "\<forall>b\<in>set (take i boxes). b \<noteq> []" "\<forall>b\<in>set (drop (i + 1) boxes). b \<noteq> []"
    using ne by (auto dest: in_set_takeD in_set_dropD)
  ultimately show "\<forall>b\<in>set (splitBox boxes i ch). b \<noteq> []" unfolding sp by auto
qed

lemma medianCutLoop_props:
  assumes "\<forall>b\<in>set boxes. b \<noteq> []"
  shows "(\<forall>b\<in>set (medianCutLoop n boxes). b \<noteq> [])
       \<and> set (concat (medianCutLoop n boxes)) = set (concat boxes)
       \<and> length boxes \<le> length (medianCutLoop n boxes)
       \<and> length (medianCutLoop n boxes) \<le> max n (length boxes)
       \<and> (length (medianCutLoop n boxes) < n \<longrightarrow> fst (findSplit (medianCutLoop n boxes)) \<le> 0)"
  using assms
proof (induction n boxes rule: medianCutLoop.induct)
  case (1 n boxes)
  obtain m i ch where f: "findSplit boxes = (m, i, ch)" by (cases "findSplit boxes") auto
  show ?case
  proof (cases "length boxes < n \<and> 0 < m")
    case False
    then have r: "medianCutLoop n boxes = boxes"
      using f by (subst medianCutLoop.simps) auto
    show ?thesis unfolding r using "1.prems" False f by auto
  next
    case True
    then have r: "medianCutLoop n boxes = medianCutLoop n (splitBox boxes i ch)"
      using f by (subst medianCutLoop.simps) auto
    have iv: "i < length boxes" "2 \<le> length (boxes ! i)"
      using findSplit_props(2)[OF f] True by auto
    note sp = splitBox_props[OF iv "1.prems", of ch]
    have ih: "(\<forall>b\<in>set (medianCutLoop n (splitBox boxes i ch)). b \<noteq> [])
       \<and> set (concat (medianCutLoop n (splitBox boxes i ch))) = set (concat (splitBox boxes i ch))
       \<and> length (splitBox boxes i ch) \<le> length (medianCutLoop n (splitBox boxes i ch))
       \<and> length (medianCutLoop n (splitBox boxes i ch)) \<le> max n (length (splitBox boxes i ch))
       \<and> (length (medianCutLoop n (splitBox boxes i ch)) < n \<longrightarrow> fst (findSplit (medianCutLoop n (splitBox boxes i ch))) \<le> 0)"
    proof (rule "1.IH"[OF _ f[symmetric] refl _ sp(3)])
      show "length boxes < n" using True by simp
      show "\<not> m \<le> 0" using True by simp
    qed
    show ?thesis unfolding r using ih sp(1,2) True by auto
  qed
qed

lemma rgbOf_channels: "rgbOf c = (channelOf c 0, channelOf c 1, channelOf c 2)"
  by (cases c) (simp add: rgbOf_def channelOf_def)

lemma flat_boxes_card:
  assumes "\<forall>b\<in>set boxes. \<forall>x\<in>set b. \<forall>y\<in>set b. rgbOf x = rgbOf y"
  shows "card (rgbOf ` set (concat boxes)) \<le> length boxes"
  using assms
proof (induction boxes)
  case Nil
  then show ?case by simp
next
  case (Cons b bs)
  have fb: "\<forall>x\<in>set b. \<forall>y\<in>set b. rgbOf x = rgbOf y"
    using Cons.prems by (meson list.set_intros(1))
  have fbs: "\<forall>b\<in>set bs. \<forall>x\<in>set b. \<forall>y\<in>set b. rgbOf x = rgbOf y"
    using Cons.prems by (meson list.set_intros(2))
  have "card (rgbOf ` set b) \<le> 1"
  proof (cases b)
    case Nil
    then show ?thesis by simp
  next
    case (Cons x xs)
    then have xb: "x \<in> set b" by simp
    have "rgbOf ` set b \<subseteq> {rgbOf x}" using fb xb by blast
    then have "card (rgbOf ` set b) \<le> card {rgbOf x}" by (intro card_mono) simp_all
    then show ?thesis by simp
  qed
  moreover have "card (rgbOf ` set (concat bs)) \<le> length bs" by (rule Cons.IH[OF fbs])
  moreover have "rgbOf ` set (concat (b # bs)) = rgbOf ` set b \<union> rgbOf ` set (concat bs)"
    by (simp add: image_Un)
  moreover have "card (rgbOf ` set b \<union> rgbOf ` set (concat bs)) \<le> card (rgbOf ` set b) + card (rgbOf ` set (concat bs))"
    by (rule card_Un_le)
  ultimately show ?case by simp
qed

lemma medianCut_length:
  assumes "colors \<noteq> []" "1 \<le> n"
  shows "1 \<le> length (medianCut colors n)" "length (medianCut colors n) \<le> n"
    "length (medianCut colors n) < n \<Longrightarrow> card (rgbOf ` set colors) < n"
proof -
  have "1 \<le> length (medianCut colors n) \<and> length (medianCut colors n) \<le> n
      \<and> (length (medianCut colors n) < n \<longrightarrow> card (rgbOf ` set colors) < n)"
  proof (cases "length colors \<le> n")
    case True
    then have m: "medianCut colors n = firstSeen colors" by (rule medianCut_small)
    have "card (set colors) \<le> length colors" by (rule card_length)
    moreover have "0 < card (set colors)" using assms(1) by (simp add: card_gt_0_iff)
    moreover have "card (rgbOf ` set colors) \<le> card (set colors)" by (simp add: card_image_le)
    ultimately show ?thesis unfolding m length_firstSeen using True by auto
  next
    case False
    let ?res = "medianCutLoop n [colors]"
    have p: "\<forall>b\<in>set ?res. b \<noteq> []" "set (concat ?res) = set colors" "1 \<le> length ?res" "length ?res \<le> n"
      "length ?res < n \<longrightarrow> fst (findSplit ?res) \<le> 0"
      using medianCutLoop_props[of "[colors]" n] assms by auto
    have f: "filter (\<lambda>box. box \<noteq> []) ?res = ?res" using p(1) by (simp add: filter_id_conv)
    have m: "length (medianCut colors n) = length ?res"
      using False assms(1) by (simp add: medianCut_def f)
    have "card (rgbOf ` set colors) < n" if "length ?res < n"
    proof -
      obtain mx i ch where fs: "findSplit ?res = (mx, i, ch)" by (cases "findSplit ?res") auto
      then have mx: "mx \<le> 0" using p(5) that by simp
      have flat: "\<forall>b\<in>set ?res. \<forall>x\<in>set b. \<forall>y\<in>set b. rgbOf x = rgbOf y"
      proof (intro ballI)
        fix b x y assume b: "b \<in> set ?res" and x: "x \<in> set b" and y: "y \<in> set b"
        obtain j where j: "j < length ?res" "?res ! j = b" using b by (auto simp: in_set_conv_nth)
        show "rgbOf x = rgbOf y"
        proof (cases "2 \<le> length b")
          case True
          have "channelRange b c \<le> 0" if "c < 3" for c
            using findSplit_props(3)[OF fs j(1), of c] j(2) True that mx by simp
          then have "channelOf x 0 = channelOf y 0" "channelOf x 1 = channelOf y 1" "channelOf x 2 = channelOf y 2"
            using channelRange_flat[OF _ x y] by simp_all
          then show ?thesis unfolding rgbOf_channels by simp
        next
          case False
          then have "length b \<le> 1" by simp
          then have "x = y" using x y by (cases b) auto
          then show ?thesis by simp
        qed
      qed
      have "card (rgbOf ` set (concat ?res)) \<le> length ?res" by (rule flat_boxes_card[OF flat])
      then show ?thesis using p(2) that by simp
    qed
    then show ?thesis using m p(3,4) by simp
  qed
  then show "1 \<le> length (medianCut colors n)" "length (medianCut colors n) \<le> n"
    "length (medianCut colors n) < n \<Longrightarrow> card (rgbOf ` set colors) < n" by blast+
qed

subsection \<open>Length of the palette\<close>

lemma length_frequencyBased: "length (frequencyBased m n) = min n (length m)"
  by (simp add: frequencyBased_def)

lemma distinct_frequencyBased: "distinct (frequencyBased (extractColorsWithFrequency img) n)"
proof -
  let ?m = "extractColorsWithFrequency img"
  let ?s = "sort_key (\<lambda>entry. - int (snd entry)) ?m"
  have "mset (map fst ?s) = mset (map fst ?m)" by simp
  moreover have "distinct (map fst ?m)" by (simp add: extractColorsWithFrequency_keys)
  ultimately have "distinct (map fst ?s)" by (metis mset_eq_imp_distinct_iff)
  then have "distinct (take n (map fst ?s))" by (rule distinct_take)
  then show ?thesis by (simp add: frequencyBased_def take_map)
qed

lemma countUniqueColors_pos: "extractAllColors img \<noteq> [] \<Longrightarrow> 1 \<le> countUniqueColors img"
  using card_gt_0_iff[of "set (extractAllColors img)"] by (simp add: countUniqueColors_card)

text \<open>
  C5 (as stated): every extracted palette has pairwise distinct colours and a length
  between 2 and the requested count, below it only when the image has fewer distinct
  colours. An image of one colour gives a palette of length 1; k-means on three pixels of
  one colour with a count of 2 returns that colour twice; median cut on three colours
  that differ only in alpha returns one colour for a count of 2.
\<close>

theorem extractPalette_length_counterexample:
  "length (extractPalette 0 \<lparr>width = 3, height = 1, data = [7, 7, 7, 255, 7, 7, 7, 255, 7, 7, 7, 255]\<rparr>
             \<lparr>colorCount = 2, algorithm = Frequency, dithering = False\<rparr>) = 1
   \<and> \<not> distinct (extractPalette 0 \<lparr>width = 3, height = 1, data = [7, 7, 7, 255, 7, 7, 7, 255, 7, 7, 7, 255]\<rparr>
             \<lparr>colorCount = 2, algorithm = KMeans, dithering = False\<rparr>)
   \<and> length (extractPalette 0 \<lparr>width = 3, height = 1, data = [0, 0, 0, 255, 0, 0, 0, 254, 0, 0, 0, 253]\<rparr>
             \<lparr>colorCount = 2, algorithm = MedianCut, dithering = False\<rparr>) = 1
   \<and> countUniqueColors \<lparr>width = 3, height = 1, data = [0, 0, 0, 255, 0, 0, 0, 254, 0, 0, 0, 253]\<rparr> = 3"
  by code_simp

text \<open>
  C5 (amended): on an image with at least one opaque pixel and a requested count of at
  least 1, every extracted palette has between 1 and the requested count of entries. The
  frequency palette has pairwise distinct colours and \<open>min(requested, distinct colours)\<close>
  entries. The k-means palette is shorter than requested only when the image has fewer
  distinct opaque colours than requested, the median-cut palette only when the opaque
  pixels have fewer distinct RGB triples than requested.
\<close>

theorem extractPalette_length:
  assumes "extractAllColors imageData \<noteq> []" and "1 \<le> requested"
  shows "1 \<le> length (extractPalette randomIndex imageData \<lparr>colorCount = requested, algorithm = alg, dithering = d\<rparr>)
       \<and> length (extractPalette randomIndex imageData \<lparr>colorCount = requested, algorithm = alg, dithering = d\<rparr>)
           \<le> requested
       \<and> (alg = Frequency \<longrightarrow>
            distinct (extractPalette randomIndex imageData \<lparr>colorCount = requested, algorithm = alg, dithering = d\<rparr>)
          \<and> length (extractPalette randomIndex imageData \<lparr>colorCount = requested, algorithm = alg, dithering = d\<rparr>)
              = min requested (countUniqueColors imageData))
       \<and> (alg = KMeans
            \<and> length (extractPalette randomIndex imageData \<lparr>colorCount = requested, algorithm = alg, dithering = d\<rparr>)
                < requested
          \<longrightarrow> countUniqueColors imageData < requested)
       \<and> (alg = MedianCut
            \<and> length (extractPalette randomIndex imageData \<lparr>colorCount = requested, algorithm = alg, dithering = d\<rparr>)
                < requested
          \<longrightarrow> card (rgbOf ` set (extractAllColors imageData)) < requested)"
proof (cases alg)
  case MedianCut
  then show ?thesis
    using medianCut_length[OF assms] by (simp add: extractPalette_def Let_def)
next
  case KMeans
  let ?colors = "extractAllColors imageData"
  have l: "length (kMeans randomIndex ?colors requested)
             = (if length ?colors \<le> requested then card (set ?colors) else max requested 1)"
    by (simp add: kMeans_def kMeansRun_length)
  have "0 < card (set ?colors)" using assms(1) by (simp add: card_gt_0_iff)
  moreover have "card (set ?colors) \<le> length ?colors" by (rule card_length)
  ultimately show ?thesis
    using KMeans l assms(2) by (auto simp: extractPalette_def Let_def countUniqueColors_card)
next
  case Frequency
  then show ?thesis
    using countUniqueColors_pos[OF assms(1)] assms(2) distinct_frequencyBased[of imageData requested]
    by (simp add: extractPalette_def length_frequencyBased countUniqueColors_def)
qed

theorem extractPalette_length_witness:
  "extractAllColors \<lparr>width = 5, height = 1,
       data = [0, 0, 0, 255, 255, 0, 0, 255, 255, 0, 0, 255, 255, 0, 0, 255, 255, 0, 0, 255]\<rparr> \<noteq> []
   \<and> length (extractPalette 0 \<lparr>width = 5, height = 1,
       data = [0, 0, 0, 255, 255, 0, 0, 255, 255, 0, 0, 255, 255, 0, 0, 255, 255, 0, 0, 255]\<rparr>
       \<lparr>colorCount = 4, algorithm = MedianCut, dithering = False\<rparr>) = 3
   \<and> card (rgbOf ` set (extractAllColors \<lparr>width = 5, height = 1,
       data = [0, 0, 0, 255, 255, 0, 0, 255, 255, 0, 0, 255, 255, 0, 0, 255, 255, 0, 0, 255]\<rparr>)) < 4
   \<and> length (extractPalette 0 \<lparr>width = 5, height = 1,
       data = [0, 0, 0, 255, 255, 0, 0, 255, 255, 0, 0, 255, 255, 0, 0, 255, 255, 0, 0, 255]\<rparr>
       \<lparr>colorCount = 4, algorithm = Frequency, dithering = False\<rparr>) = min 4 2
   \<and> length (extractPalette 0 \<lparr>width = 5, height = 1,
       data = [0, 0, 0, 255, 255, 0, 0, 255, 255, 0, 0, 255, 255, 0, 0, 255, 255, 0, 0, 255]\<rparr>
       \<lparr>colorCount = 4, algorithm = KMeans, dithering = False\<rparr>) \<le> 4"
proof -
  let ?img = "\<lparr>width = 5, height = 1,
       data = [0, 0, 0, 255, 255, 0, 0, 255, 255, 0, 0, 255, 255, 0, 0, 255, 255, 0, 0, 255]\<rparr>"
  have c: "extractAllColors ?img \<noteq> []" by code_simp
  have n: "(1::nat) \<le> 4" by simp
  have u: "countUniqueColors ?img = 2" by code_simp
  have l: "length (extractPalette 0 ?img \<lparr>colorCount = 4, algorithm = MedianCut, dithering = False\<rparr>) = 3"
    by code_simp
  note m = extractPalette_length[OF c n, of 0 MedianCut False]
  note f = extractPalette_length[OF c n, of 0 Frequency False]
  note k = extractPalette_length[OF c n, of 0 KMeans False]
  have "card (rgbOf ` set (extractAllColors ?img)) < 4" using m l by simp
  moreover have "length (extractPalette 0 ?img \<lparr>colorCount = 4, algorithm = Frequency, dithering = False\<rparr>) = min 4 2"
    using f u by simp
  moreover have "length (extractPalette 0 ?img \<lparr>colorCount = 4, algorithm = KMeans, dithering = False\<rparr>) \<le> 4"
    using k by simp
  ultimately show ?thesis using c l by blast
qed

end
